theory Spec2Isabelle
  imports Complex_Main "HOL-Library.Sublist"
begin

section \<open>The WebP converter component\<close>

text \<open>
  The source is one React component file: \<^verbatim>\<open>QualitySelector\<close> (the slider) and
  \<^verbatim>\<open>AutoWebPConverter\<close> (the file registry and the conversion pipeline).

  \<^item> JavaScript numbers are read as real numbers, so rounding errors of doubles are
    not part of the model; byte counts (\<^verbatim>\<open>File.size\<close>, \<^verbatim>\<open>Blob.size\<close>) are natural
    numbers; strings are character lists.
  \<^item> What the browser decides is an input: the strings of \<^verbatim>\<open>Math.random\<close>, and for
    each conversion whether the image loads, whether a drawing context exists, what
    the encoder returns and which object URL is created.
  \<^item> The component's state is passed explicitly. Each handler, and each continuation
    of an \<^verbatim>\<open>await\<close>, runs as one step, and the component has rendered again before
    the next step.
\<close>

subsection \<open>Quality control\<close>

text \<open>\<^verbatim>\<open>Math.min(quality, 99.9)\<close>, the number shown in the label.\<close>

definition quality_display :: "real \<Rightarrow> real" where
  "quality_display quality = min quality 99.9"

text \<open>\<^verbatim>\<open>quality < 50 ? 'Low' : quality < 80 ? 'Average' : 'High'\<close>\<close>

definition quality_label :: "real \<Rightarrow> string" where
  "quality_label quality =
     (if quality < 50 then ''Low'' else if quality < 80 then ''Average'' else ''High'')"

subsection \<open>Display size\<close>

text \<open>
  \<^verbatim>\<open>Math.floor(Math.log(bytes) / Math.log(k))\<close> with \<^verbatim>\<open>k = 1024\<close>, for a positive
  integer \<^verbatim>\<open>bytes\<close>: computed here by repeated division, and shown below
  (\<open>unit_index_floor_log\<close>) to be the floor of the quotient of the logarithms of
  real numbers. The quotient of two doubles can be rounded up to the next integer
  when \<open>bytes\<close> is just below a high power of 1024; no statement below depends on
  the index of such a count.
\<close>

fun unit_index :: "nat \<Rightarrow> nat" where
  "unit_index bytes = (if bytes < 1024 then 0 else Suc (unit_index (bytes div 1024)))"

declare unit_index.simps [simp del]

text \<open>\<^verbatim>\<open>const sizes = ["B", "KB", "MB", "GB"]\<close>; an index outside the array reads
  \<^verbatim>\<open>undefined\<close>.\<close>

definition sizes :: "string list" where
  "sizes = [''B'', ''KB'', ''MB'', ''GB'']"

definition sizes_at :: "nat \<Rightarrow> string option" where
  "sizes_at i = (if i < length sizes then Some (sizes ! i) else None)"

text \<open>
  \<^verbatim>\<open>(bytes / Math.pow(k, i)).toFixed(2)\<close>: the quotient \<open>bytes / d\<close> rounded to the
  nearest hundredth, the larger one on a tie; the result is kept as a number of
  hundredths (\<open>toFixed2_round\<close> below relates it to the real quotient).
\<close>

definition toFixed2 :: "nat \<Rightarrow> nat \<Rightarrow> nat" where
  "toFixed2 bytes d = (200 * bytes + d) div (2 * d)"

text \<open>Decimal digits of a natural number.\<close>

definition digit :: "nat \<Rightarrow> char" where
  "digit d = ''0123456789'' ! d"

fun show_nat :: "nat \<Rightarrow> string" where
  "show_nat n = (if n < 10 then [digit n] else show_nat (n div 10) @ [digit (n mod 10)])"

declare show_nat.simps [simp del]

text \<open>
  \<^verbatim>\<open>parseFloat(s) + " "\<close> for \<open>s\<close> the two-decimal string of \<open>h\<close> hundredths:
  parsing and printing again drops the trailing zeros of the fraction, and the
  decimal point with them.
\<close>

definition number_string :: "nat \<Rightarrow> string" where
  "number_string h =
     show_nat (h div 100) @
       (if h mod 100 = 0 then ''''
        else if h mod 10 = 0 then ''.'' @ [digit (h mod 100 div 10)]
        else ''.'' @ [digit (h mod 100 div 10), digit (h mod 10)])"

definition formatFileSize :: "nat \<Rightarrow> string" where
  "formatFileSize bytes =
     (if bytes = 0 then ''0 B''
      else
        let k = 1024;
            i = unit_index bytes
        in number_string (toFixed2 bytes (k ^ i)) @ '' '' @
             (case sizes_at i of Some u \<Rightarrow> u | None \<Rightarrow> ''undefined''))"

subsection \<open>Download name\<close>

text \<open>\<^verbatim>\<open>s.split(c)\<close> for a one-character separator: the pieces between the
  separators, never an empty array.\<close>

fun split :: "char \<Rightarrow> string \<Rightarrow> string list" where
  "split c [] = [[]]"
| "split c (x # xs) =
     (if x = c then [] # split c xs
      else (case split c xs of [] \<Rightarrow> [[x]] | p # ps \<Rightarrow> (x # p) # ps))"

text \<open>\<^verbatim>\<open>`${file.originalFile.name.split(".")[0]}.webp`\<close>\<close>

definition download_name :: "string \<Rightarrow> string" where
  "download_name name =
     (case split (CHR ''.'') name of [] \<Rightarrow> ''undefined'' | p # _ \<Rightarrow> p) @ ''.webp''"

subsection \<open>Jobs\<close>

text \<open>The browser's \<^verbatim>\<open>File\<close>, as far as the component reads it.\<close>

record File =
  name :: string
  type :: string
  size_of :: nat

datatype status = Converting | Converted | Error

type_synonym url = string

text \<open>\<^verbatim>\<open>interface ConvertedFile\<close>; an optional field that is absent is \<open>None\<close>.\<close>

record converted_file =
  id_of :: string
  originalFile :: File
  originalType :: string
  status :: status
  convertedUrl :: "url option"
  convertedSize :: "nat option"
  error :: "string option"

text \<open>\<^verbatim>\<open>s.startsWith(p)\<close>\<close>

definition startsWith :: "string \<Rightarrow> string \<Rightarrow> bool" where
  "startsWith s p = (take (length p) s = p)"

text \<open>
  \<^verbatim>\<open>Math.random().toString(36).substr(2, 9)\<close>: the argument is the string
  \<^verbatim>\<open>Math.random().toString(36)\<close>, drawn by the host.
\<close>

definition substr :: "string \<Rightarrow> nat \<Rightarrow> nat \<Rightarrow> string" where
  "substr s start len = take len (drop start s)"

definition new_id :: "string \<Rightarrow> string" where
  "new_id r = substr r 2 9"

subsection \<open>Conversion of one file\<close>

text \<open>A value passed to \<^verbatim>\<open>reject\<close>: an \<^verbatim>\<open>Error\<close> with its message, or
  anything else.\<close>

datatype thrown = ErrorObject string | OtherValue

text \<open>
  What the host platform does during one call of \<^verbatim>\<open>convertToWebP\<close>: whether the
  image loads (\<^verbatim>\<open>onload\<close>) or not (\<^verbatim>\<open>onerror\<close>), whether the canvas gives a 2d
  context, whether drawing throws, what \<^verbatim>\<open>canvas.toBlob\<close> hands to its
  callback for a media type and a quality (the size of the blob, or \<^verbatim>\<open>null\<close>),
  and the object URL created for that blob.
\<close>

record host =
  image_loads :: bool
  context2d :: bool
  draw_throws :: "thrown option"
  toBlob :: "string \<Rightarrow> real \<Rightarrow> nat option"
  createObjectURL :: url

text \<open>\<^verbatim>\<open>Math.max(quality / 100 - 0.001, 0)\<close>\<close>

definition effective_quality :: "real \<Rightarrow> real" where
  "effective_quality quality = max (quality / 100 - 0.001) 0"

text \<open>The outcome of one call: the calls made to the encoder, each with its
  media type and quality argument, and how the promise settles.\<close>

record conversion =
  encoder_calls :: "(string \<times> real) list"
  settled :: "thrown + (url \<times> nat)"

definition convertToWebP :: "File \<Rightarrow> real \<Rightarrow> host \<Rightarrow> conversion" where
  "convertToWebP f quality h =
     (if \<not> startsWith (type f) ''image/'' then
        \<lparr>encoder_calls = [], settled = Inl (ErrorObject ''Unsupported file format'')\<rparr>
      else if \<not> image_loads h then
        \<lparr>encoder_calls = [], settled = Inl (ErrorObject ''Failed to load image'')\<rparr>
      else if \<not> context2d h then
        \<lparr>encoder_calls = [], settled = Inl (ErrorObject ''Failed to get drawing context'')\<rparr>
      else
        (case draw_throws h of
           Some e \<Rightarrow> \<lparr>encoder_calls = [], settled = Inl e\<rparr>
         | None \<Rightarrow>
             let q = effective_quality quality
             in \<lparr>encoder_calls = [(''image/webp'', q)],
                 settled =
                   (case toBlob h ''image/webp'' q of
                      Some n \<Rightarrow> Inr (createObjectURL h, n)
                    | None \<Rightarrow> Inl (ErrorObject ''Failed to convert image to WebP''))\<rparr>))"

text \<open>\<^verbatim>\<open>error instanceof Error ? error.message : "Unknown error"\<close>\<close>

fun error_message :: "thrown \<Rightarrow> string" where
  "error_message (ErrorObject m) = m"
| "error_message OtherValue = ''Unknown error''"

subsection \<open>The component's state\<close>

text \<open>
  A call of \<^verbatim>\<open>handleFilesSelected\<close> that is suspended at its \<^verbatim>\<open>await\<close>: the job
  whose conversion it waits for, the jobs the \<^verbatim>\<open>for\<close> loop has not reached yet, and
  the \<^verbatim>\<open>quality\<close> its closure holds. Two jobs can have the same id, so the log
  names a job by its number in the order of creation, from 0: the number of the
  call of \<^verbatim>\<open>Math.random\<close> that made its id. \<open>number\<close> is the number of the awaited
  job; it is not a variable of the source and only the log reads it.
\<close>

record task =
  awaiting :: converted_file
  remaining :: "converted_file list"
  task_quality :: real
  number :: nat

text \<open>Calls the component makes, in the order it makes them: \<^verbatim>\<open>convertToWebP\<close> for
  a job, and the \<^verbatim>\<open>setFiles\<close> that applies the outcome of a job's conversion.\<close>

datatype event = ConvertStart nat | UpdateApplied nat

text \<open>
  \<open>files\<close> and \<open>quality\<close> are the two \<^verbatim>\<open>useState\<close> cells the claims are about;
  \<open>tasks\<close> are the suspended calls of \<^verbatim>\<open>handleFilesSelected\<close>; \<open>random_calls\<close>
  counts the calls of \<^verbatim>\<open>Math.random\<close> so far; \<open>events\<close> logs each call of
  \<^verbatim>\<open>convertToWebP\<close> and each registry update of a settled conversion, by job
  number; \<open>revoked\<close> logs the argument of each call of \<^verbatim>\<open>URL.revokeObjectURL\<close>.
\<close>

record app =
  files :: "converted_file list"
  quality :: real
  tasks :: "task list"
  random_calls :: nat
  events :: "event list"
  revoked :: "url list"

text \<open>\<^verbatim>\<open>useState<ConvertedFile[]>([])\<close>, \<^verbatim>\<open>useState(85)\<close>\<close>

definition initial :: app where
  "initial = \<lparr>files = [], quality = 85, tasks = [], random_calls = 0, events = [],
     revoked = []\<rparr>"

text \<open>
  The body of the effect's cleanup and of the loop in Clean All:
  \<^verbatim>\<open>fs.forEach((file) => { if (file.convertedUrl) URL.revokeObjectURL(file.convertedUrl) })\<close>.
  The empty string is falsy.
\<close>

definition truthy_url :: "url option \<Rightarrow> url list" where
  "truthy_url u = (case u of None \<Rightarrow> [] | Some v \<Rightarrow> (if v = [] then [] else [v]))"

definition revoke_each :: "converted_file list \<Rightarrow> url list" where
  "revoke_each fs = concat (map (\<lambda>f. truthy_url (convertedUrl f)) fs)"

text \<open>
  \<^verbatim>\<open>setFiles(update)\<close>. Every update in the source builds a new array, so \<open>files\<close>
  changes, the component renders again, and React runs the cleanup of the effect
  declared with \<^verbatim>\<open>useEffect(..., [files])\<close>: the cleanup closes over the files of
  the previous render and revokes each of their URLs.
\<close>

definition setFiles :: "(converted_file list \<Rightarrow> converted_file list) \<Rightarrow> app \<Rightarrow> app" where
  "setFiles update s =
     s\<lparr>files := update (files s), revoked := revoked s @ revoke_each (files s)\<rparr>"

text \<open>The job made for an image file of a selection; \<open>rand n\<close> is the
  string of the \<open>n\<close>-th call of \<^verbatim>\<open>Math.random().toString(36)\<close>.\<close>

definition new_file :: "(nat \<Rightarrow> string) \<Rightarrow> nat \<Rightarrow> File \<Rightarrow> converted_file" where
  "new_file rand n f =
     \<lparr>id_of = new_id (rand n), originalFile = f, originalType = type f, status = Converting,
      convertedUrl = None, convertedSize = None, error = None\<rparr>"

text \<open>\<^verbatim>\<open>Array.from(selectedFiles).filter((file) => file.type.startsWith("image/"))\<close>\<close>

definition imageFiles :: "File list \<Rightarrow> File list" where
  "imageFiles selectedFiles = filter (\<lambda>file. startsWith (type file) ''image/'') selectedFiles"

text \<open>\<^verbatim>\<open>imageFiles.map((file) => ({...}))\<close>, when \<open>n\<close> calls of \<^verbatim>\<open>Math.random\<close> were
  made before.\<close>

definition newFiles :: "(nat \<Rightarrow> string) \<Rightarrow> nat \<Rightarrow> File list \<Rightarrow> converted_file list" where
  "newFiles rand n fs = map (\<lambda>(k, f). new_file rand k f) (enumerate n fs)"

text \<open>
  \<^verbatim>\<open>handleFilesSelected\<close> up to its first \<^verbatim>\<open>await\<close>: filter, early return, the new
  jobs, the append, and the first iteration's call of \<^verbatim>\<open>convertToWebP\<close>.
\<close>

definition handleFilesSelected :: "(nat \<Rightarrow> string) \<Rightarrow> File list \<Rightarrow> app \<Rightarrow> app" where
  "handleFilesSelected rand selectedFiles s =
     (let images = imageFiles selectedFiles
      in if length images = 0 then s
         else
           let new = newFiles rand (random_calls s) images;
               s1 = setFiles (\<lambda>prev. prev @ new)
                      (s\<lparr>random_calls := random_calls s + length images\<rparr>)
           in s1\<lparr>tasks := tasks s1 @
                    [\<lparr>awaiting = hd new, remaining = tl new, task_quality = quality s,
                      number = random_calls s\<rparr>],
                 events := events s1 @ [ConvertStart (random_calls s)]\<rparr>)"

text \<open>The two updates of the loop body: \<^verbatim>\<open>prev.map((f) => f.id === newFile.id ? {...} : f)\<close>.\<close>

definition mark_converted ::
    "string \<Rightarrow> url \<Rightarrow> nat \<Rightarrow> converted_file list \<Rightarrow> converted_file list" where
  "mark_converted i u n prev =
     map (\<lambda>f. if id_of f = i
               then f\<lparr>status := Converted, convertedUrl := Some u, convertedSize := Some n\<rparr>
               else f) prev"

definition mark_error :: "string \<Rightarrow> string \<Rightarrow> converted_file list \<Rightarrow> converted_file list" where
  "mark_error i m prev =
     map (\<lambda>f. if id_of f = i then f\<lparr>status := Error, error := Some m\<rparr> else f) prev"

text \<open>
  The continuation of the \<open>k\<close>-th suspended call when its conversion settles as
  the host \<open>h\<close> decides: the update of the registry, then the next iteration of
  the \<^verbatim>\<open>for\<close> loop, which calls \<^verbatim>\<open>convertToWebP\<close> for the next job and suspends
  again, or ends the call. With no \<open>k\<close>-th call there is nothing to continue.
\<close>

definition settle :: "nat \<Rightarrow> host \<Rightarrow> app \<Rightarrow> app" where
  "settle k h s =
     (if length (tasks s) \<le> k then s
      else
        let t = tasks s ! k;
            newFile = awaiting t;
            s1 = (case settled (convertToWebP (originalFile newFile) (task_quality t) h) of
                    Inr (u, n) \<Rightarrow> setFiles (mark_converted (id_of newFile) u n) s
                  | Inl e \<Rightarrow> setFiles (mark_error (id_of newFile) (error_message e)) s);
            s2 = s1\<lparr>events := events s1 @ [UpdateApplied (number t)]\<rparr>
        in (case remaining t of
              [] \<Rightarrow> s2\<lparr>tasks := take k (tasks s2) @ drop (Suc k) (tasks s2)\<rparr>
            | next # rest \<Rightarrow>
                s2\<lparr>tasks := (tasks s2)[k := t\<lparr>awaiting := next, remaining := rest,
                                              number := Suc (number t)\<rparr>],
                   events := events s2 @ [ConvertStart (Suc (number t))]\<rparr>))"

text \<open>\<^verbatim>\<open>removeFile\<close>\<close>

definition removeFile :: "string \<Rightarrow> app \<Rightarrow> app" where
  "removeFile i s =
     (let fileToRemove = find (\<lambda>f. id_of f = i) (files s);
          s1 = s\<lparr>revoked := revoked s @
                  (case fileToRemove of None \<Rightarrow> [] | Some f \<Rightarrow> truthy_url (convertedUrl f))\<rparr>
      in setFiles (filter (\<lambda>f. id_of f \<noteq> i)) s1)"

text \<open>The Clean All button's \<^verbatim>\<open>onClick\<close>\<close>

definition clean_all :: "app \<Rightarrow> app" where
  "clean_all s =
     setFiles (\<lambda>_. []) (s\<lparr>revoked := revoked s @ revoke_each (files s)\<rparr>)"

text \<open>\<^verbatim>\<open>onQualityChange={setQuality}\<close>\<close>

definition setQuality :: "real \<Rightarrow> app \<Rightarrow> app" where
  "setQuality v s = s\<lparr>quality := v\<rparr>"

subsection \<open>Sessions\<close>

text \<open>
  What can happen to the component: the user selects or drops files, the
  conversion that a suspended call awaits settles, the user removes a job, clears
  the list, or moves the slider. A session is a list of such actions, run from
  left to right.
\<close>

datatype action =
  FilesSelected "File list"
| Settled nat host
| RemoveFile string
| CleanAll
| QualityChange real

fun step :: "(nat \<Rightarrow> string) \<Rightarrow> action \<Rightarrow> app \<Rightarrow> app" where
  "step rand (FilesSelected selectedFiles) s = handleFilesSelected rand selectedFiles s"
| "step rand (Settled k h) s = settle k h s"
| "step rand (RemoveFile i) s = removeFile i s"
| "step rand CleanAll s = clean_all s"
| "step rand (QualityChange v) s = setQuality v s"

fun run :: "(nat \<Rightarrow> string) \<Rightarrow> action list \<Rightarrow> app \<Rightarrow> app" where
  "run rand [] s = s"
| "run rand (a # as) s = run rand as (step rand a s)"

text \<open>The jobs an action adds to the end of the registry, and all jobs created
  during a session, in the order of their creation; only \<^verbatim>\<open>handleFilesSelected\<close>
  makes jobs.\<close>

definition created :: "(nat \<Rightarrow> string) \<Rightarrow> action \<Rightarrow> app \<Rightarrow> converted_file list" where
  "created rand a s = drop (length (files s)) (files (step rand a s))"

fun all_created :: "(nat \<Rightarrow> string) \<Rightarrow> action list \<Rightarrow> app \<Rightarrow> converted_file list" where
  "all_created rand [] s = []"
| "all_created rand (a # as) s =
     (case a of
        FilesSelected _ \<Rightarrow> created rand a s @ all_created rand as (step rand a s)
      | _ \<Rightarrow> all_created rand as (step rand a s))"

text \<open>The selections of a session that hold an image, in order: each with the
  number of its first job and its image files. The jobs of a selection have
  consecutive numbers.\<close>

fun selections :: "(nat \<Rightarrow> string) \<Rightarrow> action list \<Rightarrow> app \<Rightarrow> (nat \<times> File list) list" where
  "selections rand [] s = []"
| "selections rand (a # as) s =
     (case a of
        FilesSelected sel \<Rightarrow>
          (if imageFiles sel = [] then [] else [(random_calls s, imageFiles sel)])
      | _ \<Rightarrow> []) @
     selections rand as (step rand a s)"

text \<open>The entries of the log about the \<open>N\<close> jobs numbered from \<open>a\<close>.\<close>

fun job_no :: "event \<Rightarrow> nat" where
  "job_no (ConvertStart n) = n"
| "job_no (UpdateApplied n) = n"

definition of_selection :: "nat \<Rightarrow> nat \<Rightarrow> event \<Rightarrow> bool" where
  "of_selection a N e = (a \<le> job_no e \<and> job_no e < a + N)"

text \<open>
  The log of \<open>N\<close> jobs numbered from \<open>a\<close> that are converted one after the other,
  when \<open>m\<close> of them are done: start and update of each of the first \<open>m\<close> jobs, then
  the start of the next job if one is left.
\<close>

definition one_by_one :: "nat \<Rightarrow> nat \<Rightarrow> nat \<Rightarrow> event list" where
  "one_by_one a N m =
     concat (map (\<lambda>n. [ConvertStart n, UpdateApplied n]) [a..<a + m]) @
       (if m < N then [ConvertStart (a + m)] else [])"

text \<open>The entries of the log about a selection, and what holds of the selections
  \<open>B\<close> made so far in every state a session reaches (shown below): the jobs of
  the selections have numbers below \<open>random_calls\<close> and no number in common, the
  log names no other job, the log of each selection is that of jobs converted one
  by one, every suspended call awaits the job in flight of a selection and holds
  its later jobs, every selection with a job left has a suspended call, and the
  suspended calls await different jobs.\<close>

definition log_of :: "nat \<times> File list \<Rightarrow> app \<Rightarrow> event list" where
  "log_of b s = filter (of_selection (fst b) (length (snd b))) (events s)"

definition sequential :: "(nat \<Rightarrow> string) \<Rightarrow> (nat \<times> File list) list \<Rightarrow> app \<Rightarrow> bool" where
  "sequential rand B s \<longleftrightarrow>
     (\<forall>b \<in> set B. fst b + length (snd b) \<le> random_calls s) \<and>
     (\<forall>b \<in> set B. \<forall>b' \<in> set B.
        b \<noteq> b' \<longrightarrow> fst b + length (snd b) \<le> fst b' \<or> fst b' + length (snd b') \<le> fst b) \<and>
     (\<forall>e \<in> set (events s). job_no e < random_calls s) \<and>
     (\<forall>b \<in> set B. \<exists>m \<le> length (snd b). log_of b s = one_by_one (fst b) (length (snd b)) m) \<and>
     (\<forall>t \<in> set (tasks s). \<exists>b \<in> set B. \<exists>m < length (snd b).
        number t = fst b + m \<and>
        awaiting t # remaining t = drop m (newFiles rand (fst b) (snd b)) \<and>
        log_of b s = one_by_one (fst b) (length (snd b)) m) \<and>
     (\<forall>b \<in> set B. \<forall>m < length (snd b).
        log_of b s = one_by_one (fst b) (length (snd b)) m \<longrightarrow>
        (\<exists>t \<in> set (tasks s). number t = fst b + m)) \<and>
     distinct (map number (tasks s))"

text \<open>The number of conversions started, and of outcomes applied, so far.\<close>

fun is_start :: "event \<Rightarrow> bool" where
  "is_start (ConvertStart _) = True"
| "is_start (UpdateApplied _) = False"

definition started :: "app \<Rightarrow> nat" where
  "started s = length (filter is_start (events s))"

definition applied :: "app \<Rightarrow> nat" where
  "applied s = length (filter (\<lambda>e. \<not> is_start e) (events s))"

subsection \<open>Measures and sample inputs used in the statements\<close>

text \<open>The number of characters after the decimal point of a printed number.\<close>

definition fraction_digits :: "string \<Rightarrow> nat" where
  "fraction_digits s = length (drop 1 (dropWhile (\<lambda>c. c \<noteq> CHR ''.'') s))"

text \<open>Three files, a host on which every conversion succeeds, and two streams
  of random strings.\<close>

definition photo :: File where
  "photo = \<lparr>name = ''photo.final.jpg'', type = ''image/jpeg'', size_of = 1536\<rparr>"

definition icon :: File where
  "icon = \<lparr>name = ''icon.png'', type = ''image/png'', size_of = 1024\<rparr>"

definition memo :: File where
  "memo = \<lparr>name = ''memo.txt'', type = ''text/plain'', size_of = 10\<rparr>"

definition encoder_ok :: host where
  "encoder_ok = \<lparr>image_loads = True, context2d = True, draw_throws = None,
     toBlob = (\<lambda>m q. Some 512), createObjectURL = ''blob:1''\<rparr>"

definition draws :: "nat \<Rightarrow> string" where
  "draws n = (if n = 0 then ''0.4fzyo82mvyr'' else ''0.4fzyo82mvzz'')"

definition counting :: "nat \<Rightarrow> string" where
  "counting n = ''0.'' @ replicate n (CHR ''a'') @ ''z''"

text \<open>Two images are selected and the first job is removed while its conversion
  is still running.\<close>

definition removed_while_converting :: app where
  "removed_while_converting =
     removeFile ''z'' (handleFilesSelected counting [photo, icon] initial)"

text \<open>A session with two selections whose conversions settle out of the order
  of the selections, and the state after a selection of two images.\<close>

definition two_selections :: "action list" where
  "two_selections =
     [FilesSelected [photo, memo, icon], FilesSelected [icon],
      Settled 1 encoder_ok, Settled 0 encoder_ok]"

definition two_images :: app where
  "two_images = handleFilesSelected counting [photo, icon] initial"

section \<open>Properties\<close>

subsection \<open>Display size\<close>

lemma unit_index_bounds:
  "0 < b \<Longrightarrow> 1024 ^ unit_index b \<le> b \<and> b < 1024 ^ Suc (unit_index b)"
proof (induction b rule: unit_index.induct)
  case (1 bytes)
  show ?case
  proof (cases "bytes < 1024")
    case True
    with "1.prems" show ?thesis by (simp add: unit_index.simps)
  next
    case False
    then have pos: "0 < bytes div 1024" by (simp add: div_greater_zero_iff)
    from "1.IH" [OF False pos]
    have lo: "1024 ^ unit_index (bytes div 1024) \<le> bytes div 1024"
      and hi: "bytes div 1024 < 1024 ^ Suc (unit_index (bytes div 1024))" by simp_all
    from lo have "1024 * 1024 ^ unit_index (bytes div 1024) \<le> 1024 * (bytes div 1024)"
      by simp
    also have "\<dots> \<le> bytes" by simp
    finally have a: "1024 ^ unit_index bytes \<le> bytes"
      using False by (simp add: unit_index.simps [of bytes])
    from hi have "bytes < 1024 * 1024 ^ Suc (unit_index (bytes div 1024))"
      by (simp add: less_mult_imp_div_less mult.commute)
    then have b: "bytes < 1024 ^ Suc (unit_index bytes)"
      using False by (simp add: unit_index.simps [of bytes])
    from a b show ?thesis by simp
  qed
qed

lemma unit_index_floor_log:
  assumes "0 < b"
  shows "int (unit_index b) = \<lfloor>ln (real b) / ln 1024\<rfloor>"
proof -
  let ?i = "unit_index b"
  from unit_index_bounds [OF assms]
  have lo: "1024 ^ ?i \<le> b" and hi: "b < 1024 ^ Suc ?i" by simp_all
  have "real (1024 ^ ?i) \<le> real b" using lo by (rule of_nat_mono)
  then have lo': "(1024::real) ^ ?i \<le> real b" by simp
  have "real b < real (1024 ^ Suc ?i)" using hi by (simp only: of_nat_less_iff)
  then have hi': "real b < (1024::real) ^ Suc ?i" by simp
  have rb: "0 < real b" using assms by simp
  have "real ?i \<le> log 1024 (real b)"
    using lo' rb by (simp add: le_log_iff powr_realpow)
  moreover have "log 1024 (real b) < real (Suc ?i)"
  proof -
    have "(1024::real) powr real (Suc ?i) = 1024 ^ Suc ?i" by (rule powr_realpow) simp
    with hi' have "real b < 1024 powr real (Suc ?i)" by simp
    with rb show ?thesis by (simp only: log_less_iff [of 1024 "real b" "real (Suc ?i)"])
  qed
  ultimately have "\<lfloor>log 1024 (real b)\<rfloor> = int ?i"
    by (intro floor_unique) simp_all
  then show ?thesis by (simp add: log_def)
qed

lemma toFixed2_round:
  assumes "0 < d"
  shows "int (toFixed2 b d) = \<lfloor>real b / real d * 100 + 1 / 2\<rfloor>"
proof -
  have "real b / real d * 100 + 1 / 2 = real (200 * b + d) / real (2 * d)"
    using assms by (simp add: field_simps)
  then show ?thesis
    by (simp only: toFixed2_def floor_divide_of_nat_eq)
qed

lemma half_unit_abs:
  fixes p b d :: int
  shows "2 * p \<le> 200 * b + d \<Longrightarrow> 200 * b + d < 2 * p + 2 * d \<Longrightarrow> 2 * \<bar>100 * b - p\<bar> \<le> d"
  by (simp add: abs_if)

lemma toFixed2_precision:
  assumes "0 < d"
  shows "2 * \<bar>100 * int b - int (toFixed2 b d) * int d\<bar> \<le> int d"
proof -
  let ?h = "toFixed2 b d"
  have "(200 * b + d) mod (2 * d) < 2 * d" using assms by simp
  moreover have "200 * b + d = ?h * (2 * d) + (200 * b + d) mod (2 * d)"
    unfolding toFixed2_def by (rule div_mult_mod_eq [symmetric])
  ultimately have "?h * (2 * d) \<le> 200 * b + d" and "200 * b + d < ?h * (2 * d) + 2 * d"
    by linarith+
  then have "int ?h * (2 * int d) \<le> 200 * int b + int d"
    and "200 * int b + int d < int ?h * (2 * int d) + 2 * int d"
    by (metis (mono_tags) of_nat_mult of_nat_add of_nat_numeral of_nat_le_iff of_nat_less_iff)+
  then have "2 * (int ?h * int d) \<le> 200 * int b + int d"
    and "200 * int b + int d < 2 * (int ?h * int d) + 2 * int d"
    by (simp_all add: mult_ac)
  then show ?thesis by (rule half_unit_abs)
qed


lemma digit_not_point: "d < 10 \<Longrightarrow> digit d \<noteq> CHR ''.''"
proof -
  assume "d < 10"
  then have "digit d \<in> set ''0123456789''"
    unfolding digit_def by (intro nth_mem) simp
  then show ?thesis by auto
qed

lemma show_nat_no_point: "CHR ''.'' \<notin> set (show_nat n)"
proof (induction n rule: show_nat.induct)
  case (1 n)
  show ?case
  proof (cases "n < 10")
    case True
    then show ?thesis using digit_not_point [of n] by (simp add: show_nat.simps [of n])
  next
    case False
    then show ?thesis
      using "1.IH" digit_not_point [of "n mod 10"] by (simp add: show_nat.simps [of n])
  qed
qed

lemma fraction_digits_number_string: "fraction_digits (number_string h) \<le> 2"
proof -
  have skip: "dropWhile (\<lambda>c. c \<noteq> CHR ''.'') (show_nat k @ ys) = dropWhile (\<lambda>c. c \<noteq> CHR ''.'') ys"
    for k ys
    by (rule dropWhile_append2) (use show_nat_no_point [of k] in auto)
  show ?thesis
    by (simp add: fraction_digits_def number_string_def skip)
qed

lemma unit_index_less_iff:
  assumes "0 < b"
  shows "unit_index b < n \<longleftrightarrow> b < 1024 ^ n"
proof
  assume "unit_index b < n"
  then have "Suc (unit_index b) \<le> n" by simp
  then have "(1024::nat) ^ Suc (unit_index b) \<le> 1024 ^ n"
    by (intro power_increasing) simp_all
  with unit_index_bounds [OF assms] show "b < 1024 ^ n" by linarith
next
  assume "b < 1024 ^ n"
  with unit_index_bounds [OF assms] have "(1024::nat) ^ unit_index b < 1024 ^ n" by linarith
  then show "unit_index b < n" by (simp add: power_strict_increasing_iff)
qed

lemma formatFileSize_pos:
  "0 < bytes \<Longrightarrow> formatFileSize bytes =
     number_string (toFixed2 bytes (1024 ^ unit_index bytes)) @ '' '' @
       (case sizes_at (unit_index bytes) of Some u \<Rightarrow> u | None \<Rightarrow> ''undefined'')"
  by (simp add: formatFileSize_def Let_def)

lemmas formatFileSize_eval =
  formatFileSize_def unit_index.simps toFixed2_def number_string_def show_nat.simps digit_def
  sizes_at_def sizes_def

text \<open>
  C6 fails at \<open>1024\<^sup>4\<close> bytes, one tebibyte: the index computed from the logarithm
  is 4, \<^verbatim>\<open>sizes[4]\<close> is read outside the four-entry table, and the result is
  \<open>1 undefined\<close>, with none of the units B, KB, MB, GB.
\<close>

theorem formatFileSize_one_tebibyte:
  "formatFileSize 1099511627776 = ''1 undefined''"
  by (simp add: formatFileSize_eval)

text \<open>
  Below \<open>1024\<^sup>4\<close> the formatter does what is expected of it: 0 gives \<open>0 B\<close>, 1024
  gives \<open>1 KB\<close>, 1536 gives \<open>1.5 KB\<close>, 1048576 gives \<open>1 MB\<close>, and every positive byte
  count below \<open>1024\<^sup>4\<close> gives its quotient by the largest power \<open>1024\<^sup>i\<close> not above it,
  rounded to the nearest hundredth and printed with at most two decimals, followed
  by a space and B for \<open>i = 0\<close>, KB for 1, MB for 2, GB for 3.
\<close>

theorem formatFileSize_binary_units:
  "formatFileSize 0 = ''0 B'' \<and> formatFileSize 1024 = ''1 KB'' \<and>
   formatFileSize 1536 = ''1.5 KB'' \<and> formatFileSize 1048576 = ''1 MB'' \<and>
   (0 < bytes \<and> bytes < 1024 ^ 4 \<longrightarrow>
      (\<exists>i h. i < 4 \<and> 1024 ^ i \<le> bytes \<and> bytes < 1024 ^ Suc i \<and>
         2 * \<bar>100 * int bytes - int h * 1024 ^ i\<bar> \<le> 1024 ^ i \<and>
         fraction_digits (number_string h) \<le> 2 \<and>
         formatFileSize bytes = number_string h @ '' '' @ [''B'', ''KB'', ''MB'', ''GB''] ! i))"
proof -
  have e0: "formatFileSize 0 = ''0 B''" by (simp add: formatFileSize_def)
  have e1: "formatFileSize 1024 = ''1 KB''" by (simp add: formatFileSize_eval)
  have e2: "formatFileSize 1536 = ''1.5 KB''" by (simp add: formatFileSize_eval)
  have e3: "formatFileSize 1048576 = ''1 MB''" by (simp add: formatFileSize_eval)
  have gen: "\<exists>i h. i < 4 \<and> 1024 ^ i \<le> bytes \<and> bytes < 1024 ^ Suc i \<and>
         2 * \<bar>100 * int bytes - int h * 1024 ^ i\<bar> \<le> 1024 ^ i \<and>
         fraction_digits (number_string h) \<le> 2 \<and>
         formatFileSize bytes = number_string h @ '' '' @ [''B'', ''KB'', ''MB'', ''GB''] ! i"
    if pos: "0 < bytes" and small: "bytes < 1024 ^ 4"
  proof -
    let ?i = "unit_index bytes"
    let ?h = "toFixed2 bytes (1024 ^ ?i)"
    have i4: "?i < 4" using small by (simp only: unit_index_less_iff [OF pos])
    have bounds: "1024 ^ ?i \<le> bytes" "bytes < 1024 ^ Suc ?i"
      using unit_index_bounds [OF pos] by simp_all
    have "2 * \<bar>100 * int bytes - int ?h * int (1024 ^ ?i)\<bar> \<le> int (1024 ^ ?i)"
      by (rule toFixed2_precision) simp
    then have prec: "2 * \<bar>100 * int bytes - int ?h * 1024 ^ ?i\<bar> \<le> 1024 ^ ?i" by simp
    have fmt: "formatFileSize bytes =
        number_string ?h @ '' '' @ [''B'', ''KB'', ''MB'', ''GB''] ! ?i"
      using i4 by (simp add: formatFileSize_pos [OF pos] sizes_at_def sizes_def)
    from i4 bounds prec fmt fraction_digits_number_string [of ?h] show ?thesis by blast
  qed
  from e0 e1 e2 e3 gen show ?thesis by blast
qed

theorem formatFileSize_binary_units_witness:
  "(0::nat) < 123456789 \<and> (123456789::nat) < 1024 ^ 4 \<and>
   formatFileSize 123456789 = ''117.74 MB'' \<and>
   (\<exists>i h. i < 4 \<and> 1024 ^ i \<le> (123456789::nat) \<and> (123456789::nat) < 1024 ^ Suc i \<and>
         2 * \<bar>100 * int 123456789 - int h * 1024 ^ i\<bar> \<le> 1024 ^ i \<and>
         fraction_digits (number_string h) \<le> 2 \<and>
         formatFileSize 123456789 = number_string h @ '' '' @ [''B'', ''KB'', ''MB'', ''GB''] ! i)"
proof -
  have "formatFileSize 123456789 = ''117.74 MB''" by (simp add: formatFileSize_eval)
  then show ?thesis using formatFileSize_binary_units [of 123456789] by simp
qed

text \<open>
  C10: for a positive byte count the unit index is inside the four-entry table
  exactly when the count is below \<open>1024\<^sup>4\<close>; every count below \<open>1024\<^sup>4\<close> (0 included,
  which returns before any index is computed) gives a result that ends in a space
  and one of B, KB, MB, GB; from \<open>1024\<^sup>4\<close> on the index is at least 4, the table has
  no entry for it, and the result ends in \<open>undefined\<close>.
\<close>

theorem formatFileSize_unit_in_bounds:
  "(0 < b \<longrightarrow> (unit_index b < length sizes \<longleftrightarrow> b < 1024 ^ 4)) \<and>
   (b < 1024 ^ 4 \<longrightarrow> (\<exists>u \<in> set sizes. suffix ('' '' @ u) (formatFileSize b))) \<and>
   (1024 ^ 4 \<le> b \<longrightarrow>
      4 \<le> unit_index b \<and> sizes_at (unit_index b) = None \<and>
      suffix '' undefined'' (formatFileSize b))"
proof -
  have exact: "unit_index b < length sizes \<longleftrightarrow> b < 1024 ^ 4" if "0 < b"
    using that by (simp add: unit_index_less_iff sizes_def)
  have inside: "\<exists>u \<in> set sizes. suffix ('' '' @ u) (formatFileSize b)" if small: "b < 1024 ^ 4"
  proof (cases "b = 0")
    case True
    then show ?thesis by (simp add: formatFileSize_def sizes_def suffix_def)
  next
    case False
    then have pos: "0 < b" by simp
    then have i4: "unit_index b < length sizes"
      using small by (simp add: unit_index_less_iff sizes_def)
    then have "formatFileSize b =
        number_string (toFixed2 b (1024 ^ unit_index b)) @ '' '' @ sizes ! unit_index b"
      by (simp add: formatFileSize_pos [OF pos] sizes_at_def)
    then have "suffix ('' '' @ sizes ! unit_index b) (formatFileSize b)"
      by (simp add: suffix_def)
    with i4 show ?thesis using nth_mem by blast
  qed
  have outside: "4 \<le> unit_index b \<and> sizes_at (unit_index b) = None \<and>
      suffix '' undefined'' (formatFileSize b)" if big: "1024 ^ 4 \<le> b"
  proof -
    have "(0::nat) < 1024 ^ 4" by simp
    with big have pos: "0 < b" by linarith
    from big have "\<not> unit_index b < 4" by (simp add: unit_index_less_iff [OF pos])
    then have i4: "4 \<le> unit_index b" by simp
    then have none: "sizes_at (unit_index b) = None" by (simp add: sizes_at_def sizes_def)
    then have "suffix '' undefined'' (formatFileSize b)"
      by (simp add: formatFileSize_pos [OF pos] suffix_def)
    with i4 none show ?thesis by simp
  qed
  from exact inside outside show ?thesis by blast
qed

theorem formatFileSize_unit_in_bounds_witness:
  "(0::nat) < 1099511627775 \<and> unit_index 1099511627775 = 3 \<and>
   (1099511627775::nat) < 1024 ^ 4 \<and>
   (\<exists>u \<in> set sizes. suffix ('' '' @ u) (formatFileSize 1099511627775)) \<and>
   (1024::nat) ^ 4 \<le> 1099511627776 \<and> unit_index 1099511627776 = 4 \<and>
   sizes_at (unit_index 1099511627776) = None \<and>
   suffix '' undefined'' (formatFileSize 1099511627776)"
proof -
  have "unit_index 1099511627775 = 3" "unit_index 1099511627776 = 4"
    by (simp_all add: unit_index.simps)
  then show ?thesis
    using formatFileSize_unit_in_bounds [of 1099511627775]
      formatFileSize_unit_in_bounds [of 1099511627776]
    by simp
qed


subsection \<open>Quality control and encoder quality\<close>

text \<open>
  C7: for every quality from 0 to 100 the label is \<open>Low\<close> below 50, \<open>Average\<close> from
  50 and below 80, \<open>High\<close> from 80 on; the displayed value is never above 99.9,
  is the quality itself up to 99.9, and is 99.9 for the input 100.
\<close>

theorem quality_label_display:
  assumes "0 \<le> q" and "q \<le> 100"
  shows "(q < 50 \<longrightarrow> quality_label q = ''Low'') \<and>
    (50 \<le> q \<and> q < 80 \<longrightarrow> quality_label q = ''Average'') \<and>
    (80 \<le> q \<longrightarrow> quality_label q = ''High'') \<and>
    quality_display q \<le> 99.9 \<and>
    (q \<le> 99.9 \<longrightarrow> quality_display q = q) \<and>
    quality_display 100 = 99.9"
  by (simp add: quality_label_def quality_display_def)

theorem quality_label_display_witness:
  "(0::real) \<le> 45 \<and> (45::real) \<le> 100 \<and>
   quality_label 45 = ''Low'' \<and> quality_display 45 = 45 \<and>
   quality_label 75 = ''Average'' \<and> quality_label 100 = ''High'' \<and> quality_display 100 = 99.9"
  using quality_label_display [of 45] quality_label_display [of 75] quality_label_display [of 100]
  by simp

text \<open>
  C8: for every quality from 0 to 100, each call of the encoder made by
  \<^verbatim>\<open>convertToWebP\<close> asks for \<open>image/webp\<close> at the factor
  \<open>max (quality / 100 - 0.001) 0\<close>, which is at least 0 and strictly below 1; and the
  encoder is called, once, whenever the file is an image that loads, a drawing
  context exists and drawing does not throw.
\<close>

theorem encoder_quality:
  assumes "0 \<le> q" and "q \<le> 100"
  shows "(\<forall>(m, e) \<in> set (encoder_calls (convertToWebP f q h)).
            m = ''image/webp'' \<and> e = max (q / 100 - 0.001) 0 \<and> 0 \<le> e \<and> e < 1) \<and>
         (startsWith (type f) ''image/'' \<and> image_loads h \<and> context2d h \<and> draw_throws h = None \<longrightarrow>
            encoder_calls (convertToWebP f q h) =
              [(''image/webp'', max (q / 100 - 0.001) 0)])"
  using assms
  by (auto simp add: convertToWebP_def effective_quality_def Let_def split: option.splits)

theorem encoder_quality_witness:
  "(0::real) \<le> 100 \<and> (100::real) \<le> 100 \<and>
   encoder_calls (convertToWebP photo 100 encoder_ok) = [(''image/webp'', 0.999)] \<and>
   (0.999::real) < 1"
  using encoder_quality [of 100 photo encoder_ok]
  by (simp add: photo_def encoder_ok_def startsWith_def)

subsection \<open>Download name\<close>

text \<open>The first piece of a split is what stands before the first separator.\<close>

lemma split_first:
  "split c s =
     takeWhile (\<lambda>x. x \<noteq> c) s #
       (case dropWhile (\<lambda>x. x \<noteq> c) s of [] \<Rightarrow> [] | _ # r \<Rightarrow> split c r)"
  by (induction s) (auto split: list.splits)

lemma download_name_first_dot:
  "download_name n = takeWhile (\<lambda>x. x \<noteq> CHR ''.'') n @ ''.webp''"
  by (subst download_name_def, subst split_first) simp

text \<open>
  C9 fails on a name with more than one dot: \<^verbatim>\<open>split(".")[0]\<close> keeps what is before
  the first dot, so \<open>photo.final.jpg\<close> is offered as \<open>photo.webp\<close>, not as
  \<open>photo.final.webp\<close>.
\<close>

theorem download_name_cuts_at_first_dot:
  "download_name ''photo.final.jpg'' = ''photo.webp'' \<and>
   download_name ''photo.final.jpg'' \<noteq> ''photo.final.webp''"
  by (simp add: download_name_def)

subsection \<open>The registry\<close>

lemmas app_eval =
  handleFilesSelected_def imageFiles_def newFiles_def settle_def removeFile_def clean_all_def
  setFiles_def initial_def new_file_def new_id_def substr_def startsWith_def convertToWebP_def
  effective_quality_def mark_converted_def mark_error_def revoke_each_def truthy_url_def
  photo_def icon_def memo_def encoder_ok_def draws_def enumerate_eq_zip Let_def

lemma newFiles_Nil [simp]: "newFiles rand n [] = []"
  by (simp add: newFiles_def)

lemma length_newFiles [simp]: "length (newFiles rand n fs) = length fs"
  by (simp add: newFiles_def)

lemma newFiles_Cons: "newFiles rand n (f # fs) = new_file rand n f # newFiles rand (Suc n) fs"
  by (simp add: newFiles_def)

lemma map_originalFile_newFiles: "map originalFile (newFiles rand n fs) = fs"
  by (induction fs arbitrary: n) (simp_all add: newFiles_Cons new_file_def)

lemma map_id_of_newFiles:
  "map id_of (newFiles rand n fs) = map (\<lambda>k. new_id (rand k)) [n..<n + length fs]"
  by (induction fs arbitrary: n) (simp_all add: newFiles_Cons new_file_def upt_rec)

lemma newFiles_fresh:
  "j \<in> set (newFiles rand n fs) \<Longrightarrow>
     status j = Converting \<and> convertedUrl j = None \<and> convertedSize j = None \<and>
     error j = None \<and> originalType j = type (originalFile j)"
  by (induction fs arbitrary: n) (auto simp add: newFiles_Cons new_file_def)

lemma files_handleFilesSelected:
  "files (handleFilesSelected rand sel s) = files s @ newFiles rand (random_calls s) (imageFiles sel)"
  by (simp add: handleFilesSelected_def setFiles_def Let_def)

lemma random_calls_handleFilesSelected:
  "random_calls (handleFilesSelected rand sel s) = random_calls s + length (imageFiles sel)"
  by (simp add: handleFilesSelected_def setFiles_def Let_def)

lemma handleFilesSelected_no_images:
  "imageFiles sel = [] \<Longrightarrow> handleFilesSelected rand sel s = s"
  by (simp add: handleFilesSelected_def)

text \<open>
  C4: the jobs a selection adds are appended to the registry, one for each
  selected file whose type starts with \<open>image/\<close> and for no other, in the order
  of the selection, each in state \<open>Converting\<close> with no URL and no error; when no
  selected file is an image the component's state stays as it is.
\<close>

theorem handleFilesSelected_creates_jobs:
  "\<exists>new. files (handleFilesSelected rand sel s) = files s @ new \<and>
     map originalFile new = filter (\<lambda>f. startsWith (type f) ''image/'') sel \<and>
     (\<forall>j \<in> set new. status j = Converting \<and> convertedUrl j = None \<and> error j = None) \<and>
     (filter (\<lambda>f. startsWith (type f) ''image/'') sel = [] \<longrightarrow>
        handleFilesSelected rand sel s = s)"
proof -
  let ?new = "newFiles rand (random_calls s) (imageFiles sel)"
  have "files (handleFilesSelected rand sel s) = files s @ ?new"
    by (rule files_handleFilesSelected)
  moreover have "map originalFile ?new = filter (\<lambda>f. startsWith (type f) ''image/'') sel"
    by (simp add: map_originalFile_newFiles imageFiles_def)
  moreover have "\<forall>j \<in> set ?new. status j = Converting \<and> convertedUrl j = None \<and> error j = None"
    using newFiles_fresh by blast
  moreover have "filter (\<lambda>f. startsWith (type f) ''image/'') sel = [] \<longrightarrow>
        handleFilesSelected rand sel s = s"
    using handleFilesSelected_no_images [of sel rand s] by (simp add: imageFiles_def)
  ultimately show ?thesis by blast
qed

theorem handleFilesSelected_creates_jobs_witness:
  "(\<exists>new. files (handleFilesSelected counting [photo, memo, icon] initial) = files initial @ new \<and>
     map originalFile new = [photo, icon] \<and>
     (\<forall>j \<in> set new. status j = Converting \<and> convertedUrl j = None \<and> error j = None)) \<and>
   filter (\<lambda>f. startsWith (type f) ''image/'') [memo] = [] \<and>
   handleFilesSelected counting [memo] initial = initial"
  using handleFilesSelected_creates_jobs [of counting "[photo, memo, icon]" initial]
    handleFilesSelected_creates_jobs [of counting "[memo]" initial]
  by (simp add: startsWith_def photo_def memo_def icon_def)

lemma mark_converted_absent: "i \<notin> id_of ` set prev \<Longrightarrow> mark_converted i u n prev = prev"
  unfolding mark_converted_def by (induction prev) auto

lemma mark_error_absent: "i \<notin> id_of ` set prev \<Longrightarrow> mark_error i m prev = prev"
  unfolding mark_error_def by (induction prev) auto

lemma files_setFiles [simp]: "files (setFiles f s) = f (files s)"
  by (simp add: setFiles_def)

lemma files_settle:
  assumes "k < length (tasks s)"
  shows "files (settle k h s) =
     (case settled (convertToWebP (originalFile (awaiting (tasks s ! k)))
                      (task_quality (tasks s ! k)) h) of
        Inr (u, n) \<Rightarrow> mark_converted (id_of (awaiting (tasks s ! k))) u n (files s)
      | Inl e \<Rightarrow> mark_error (id_of (awaiting (tasks s ! k))) (error_message e) (files s))"
  using assms
  by (simp add: settle_def Let_def split: sum.splits list.splits prod.splits)

text \<open>
  C5: when the conversion of a job settles, with success or with failure, and
  the job's id is no longer in the registry, the registry after the update is the
  registry before it, so the job is not brought back; the update has no failing
  branch.
\<close>

theorem settle_absent_id_is_noop:
  assumes "k < length (tasks s)"
    and "id_of (awaiting (tasks s ! k)) \<notin> id_of ` set (files s)"
  shows "files (settle k h s) = files s \<and>
    id_of (awaiting (tasks s ! k)) \<notin> id_of ` set (files (settle k h s))"
  using assms
  by (simp add: files_settle mark_converted_absent mark_error_absent
      split: sum.splits prod.splits)


theorem settle_absent_id_is_noop_witness:
  "0 < length (tasks removed_while_converting) \<and>
   id_of (awaiting (tasks removed_while_converting ! 0)) = ''z'' \<and>
   ''z'' \<notin> id_of ` set (files removed_while_converting) \<and>
   map id_of (files removed_while_converting) = [''az''] \<and>
   files (settle 0 encoder_ok removed_while_converting) = files removed_while_converting"
proof -
  have a: "0 < length (tasks removed_while_converting)"
    and b: "id_of (awaiting (tasks removed_while_converting ! 0)) = ''z''"
    and c: "map id_of (files removed_while_converting) = [''az'']"
    by (simp_all add: removed_while_converting_def app_eval counting_def)
  from c have "set (map id_of (files removed_while_converting)) = {''az''}" by simp
  then have d: "id_of (awaiting (tasks removed_while_converting ! 0)) \<notin>
      id_of ` set (files removed_while_converting)"
    using b by simp
  from a b c d settle_absent_id_is_noop [OF a d, of encoder_ok] show ?thesis by simp
qed

subsection \<open>Job ids\<close>

lemma random_calls_setFiles [simp]: "random_calls (setFiles f s) = random_calls s"
  by (simp add: setFiles_def)

lemma random_calls_settle [simp]: "random_calls (settle k h s) = random_calls s"
  by (simp add: settle_def Let_def split: sum.splits list.splits prod.splits)

lemma random_calls_step_le: "random_calls s \<le> random_calls (step rand a s)"
  by (cases a)
    (simp_all add: random_calls_handleFilesSelected removeFile_def clean_all_def
      setQuality_def Let_def)

lemma random_calls_run_le: "random_calls s \<le> random_calls (run rand acts s)"
proof (induction acts arbitrary: s)
  case Nil
  show ?case by simp
next
  case (Cons a acts)
  have "random_calls s \<le> random_calls (step rand a s)" by (rule random_calls_step_le)
  also have "\<dots> \<le> random_calls (run rand acts (step rand a s))" by (rule Cons.IH)
  finally show ?case by simp
qed

lemma created_FilesSelected:
  "created rand (FilesSelected sel) s = newFiles rand (random_calls s) (imageFiles sel)"
  by (simp add: created_def files_handleFilesSelected)

lemma all_created_ids:
  "map id_of (all_created rand acts s) =
     map (\<lambda>n. new_id (rand n)) [random_calls s..<random_calls (run rand acts s)]"
proof (induction acts arbitrary: s)
  case Nil
  show ?case by simp
next
  case (Cons a acts)
  let ?s = "step rand a s"
  note IH = Cons.IH [of ?s]
  show ?case
  proof (cases a)
    case (FilesSelected sel)
    have mid: "random_calls ?s = random_calls s + length (imageFiles sel)"
      using FilesSelected by (simp add: random_calls_handleFilesSelected)
    have "random_calls ?s \<le> random_calls (run rand acts ?s)" by (rule random_calls_run_le)
    then obtain d where d: "random_calls (run rand acts ?s) = random_calls ?s + d"
      using le_Suc_ex by blast
    have "[random_calls s..<random_calls (run rand acts ?s)] =
        [random_calls s..<random_calls ?s] @ [random_calls ?s..<random_calls (run rand acts ?s)]"
      unfolding d by (rule upt_add_eq_append) (simp add: mid)
    then show ?thesis
      using FilesSelected IH
      by (simp add: created_FilesSelected map_id_of_newFiles random_calls_handleFilesSelected)
  next
    case (Settled k h)
    then show ?thesis using IH by simp
  next
    case (RemoveFile i)
    then show ?thesis using IH by (simp add: removeFile_def Let_def)
  next
    case CleanAll
    then show ?thesis using IH by (simp add: clean_all_def)
  next
    case (QualityChange v)
    then show ?thesis using IH by (simp add: setQuality_def)
  qed
qed

text \<open>
  C3, as the code has it: the ids of the jobs created during a session are, in
  the order of creation, the nine characters from position 2 of the successive
  random strings, so they are pairwise distinct exactly when those substrings
  are; nothing in the code compares a new id with another one.
\<close>

theorem ids_are_the_random_strings:
  "map id_of (all_created rand acts initial) =
     map (\<lambda>n. new_id (rand n)) [0..<random_calls (run rand acts initial)] \<and>
   (distinct (map id_of (all_created rand acts initial)) \<longleftrightarrow>
      inj_on (\<lambda>n. new_id (rand n)) {0..<random_calls (run rand acts initial)})"
proof -
  have eq: "map id_of (all_created rand acts initial) =
     map (\<lambda>n. new_id (rand n)) [0..<random_calls (run rand acts initial)]"
    using all_created_ids [of rand acts initial] by (simp add: initial_def)
  show ?thesis unfolding eq by (simp add: distinct_map)
qed

theorem ids_are_the_random_strings_witness:
  "map id_of (all_created counting
      [FilesSelected [photo, memo], RemoveFile ''z'', FilesSelected [icon]] initial) =
     [''z'', ''az''] \<and>
   distinct (map id_of (all_created counting
      [FilesSelected [photo, memo], RemoveFile ''z'', FilesSelected [icon]] initial))"
proof -
  have "random_calls (run counting
      [FilesSelected [photo, memo], RemoveFile ''z'', FilesSelected [icon]] initial) = 2"
    by (simp add: app_eval)
  moreover have "[0..<2] = [0, Suc 0]" by (simp add: upt_rec)
  ultimately show ?thesis
    using ids_are_the_random_strings [of counting
      "[FilesSelected [photo, memo], RemoveFile ''z'', FilesSelected [icon]]"]
    by (simp add: new_id_def substr_def counting_def)
qed


text \<open>Two random strings that differ after their eleventh character give two
  jobs of one selection the same id.\<close>

theorem same_id_twice_counterexample:
  "map id_of (all_created draws [FilesSelected [photo, icon]] initial) =
     [''4fzyo82mv'', ''4fzyo82mv'']"
  by (simp add: created_def app_eval)

subsection \<open>Order of the conversions of a selection\<close>

lemma events_setFiles [simp]: "events (setFiles f s) = events s"
  by (simp add: setFiles_def)

lemma tasks_setFiles [simp]: "tasks (setFiles f s) = tasks s"
  by (simp add: setFiles_def)

lemma events_settle:
  assumes "k < length (tasks s)"
  shows "events (settle k h s) =
     events s @ UpdateApplied (number (tasks s ! k)) #
       (if remaining (tasks s ! k) = [] then [] else [ConvertStart (Suc (number (tasks s ! k)))])"
  using assms
  by (simp add: settle_def Let_def split: sum.splits list.splits prod.splits)

lemma tasks_settle:
  assumes "k < length (tasks s)"
  shows "tasks (settle k h s) =
     (case remaining (tasks s ! k) of
        [] \<Rightarrow> take k (tasks s) @ drop (Suc k) (tasks s)
      | n # r \<Rightarrow> (tasks s)[k := (tasks s ! k)\<lparr>awaiting := n, remaining := r,
                                              number := Suc (number (tasks s ! k))\<rparr>])"
  using assms
  by (simp add: settle_def Let_def split: sum.splits list.splits prod.splits)

lemma settle_no_task: "length (tasks s) \<le> k \<Longrightarrow> settle k h s = s"
  by (simp add: settle_def)

lemma tasks_handleFilesSelected:
  "imageFiles sel \<noteq> [] \<Longrightarrow>
     tasks (handleFilesSelected rand sel s) =
       tasks s @ [\<lparr>awaiting = hd (newFiles rand (random_calls s) (imageFiles sel)),
                   remaining = tl (newFiles rand (random_calls s) (imageFiles sel)),
                   task_quality = quality s, number = random_calls s\<rparr>]"
  by (simp add: handleFilesSelected_def Let_def)

lemma events_handleFilesSelected:
  "imageFiles sel \<noteq> [] \<Longrightarrow>
     events (handleFilesSelected rand sel s) = events s @ [ConvertStart (random_calls s)]"
  by (simp add: handleFilesSelected_def Let_def)

lemma status_settle:
  assumes "k < length (tasks s)" and "f \<in> set (files (settle k h s))"
    and "id_of f = id_of (awaiting (tasks s ! k))"
  shows "status f \<noteq> Converting"
  using assms
  by (auto simp add: files_settle mark_converted_def mark_error_def
      split: sum.splits prod.splits if_splits)

lemma length_pairs: "length (concat (map (\<lambda>n. [ConvertStart n, UpdateApplied n]) ns)) = 2 * length ns"
  by (induction ns) simp_all

lemma length_one_by_one: "length (one_by_one a N m) = 2 * m + (if m < N then 1 else 0)"
  by (simp add: one_by_one_def length_pairs)

lemma one_by_one_inj:
  assumes "one_by_one a N m = one_by_one a N m'"
  shows "m = m'"
proof -
  from assms have "length (one_by_one a N m) = length (one_by_one a N m')" by simp
  then have "2 * m + (if m < N then 1 else 0) = 2 * m' + (if m' < N then 1 else (0::nat))"
    by (simp only: length_one_by_one)
  then show ?thesis by (simp split: if_splits)
qed

lemma one_by_one_0: "0 < N \<Longrightarrow> one_by_one a N 0 = [ConvertStart a]"
  by (simp add: one_by_one_def)

lemma one_by_one_Suc:
  assumes "m < N"
  shows "one_by_one a N (Suc m) =
     one_by_one a N m @ UpdateApplied (a + m) #
       (if Suc m < N then [ConvertStart (Suc (a + m))] else [])"
  using assms by (simp add: one_by_one_def)


lemma set_remove_nth:
  assumes "distinct xs" and "k < length xs"
  shows "set (take k xs @ drop (Suc k) xs) = set xs - {xs ! k}"
proof -
  have xs: "xs = take k xs @ xs ! k # drop (Suc k) xs"
    using assms(2) by (rule id_take_nth_drop)
  with assms(1) have "distinct (take k xs @ xs ! k # drop (Suc k) xs)" by simp
  then have "xs ! k \<notin> set (take k xs)" and "xs ! k \<notin> set (drop (Suc k) xs)" by auto
  moreover have "set xs = set (take k xs) \<union> {xs ! k} \<union> set (drop (Suc k) xs)"
    by (subst xs) auto
  ultimately show ?thesis by auto
qed

lemma distinct_remove_nth:
  assumes "distinct xs"
  shows "distinct (take k xs @ drop (Suc k) xs)"
proof (cases "k < length xs")
  case True
  then have "xs = take k xs @ xs ! k # drop (Suc k) xs" by (rule id_take_nth_drop)
  with assms have "distinct (take k xs @ xs ! k # drop (Suc k) xs)" by simp
  then show ?thesis by auto
next
  case False
  with assms show ?thesis by simp
qed


lemma other_number:
  "distinct (map f xs) \<Longrightarrow> k < length xs \<Longrightarrow> x \<in> set xs \<Longrightarrow> x \<noteq> xs ! k \<Longrightarrow> f x \<noteq> f (xs ! k)"
  by (metis (mono_tags, lifting) distinct_conv_nth in_set_conv_nth length_map nth_map)

lemma sequential_settle:
  assumes inv: "sequential rand B s" and k: "k < length (tasks s)"
  shows "sequential rand B (settle k h s)"
proof -
  let ?t = "tasks s ! k"
  let ?s = "settle k h s"
  from inv have J1: "\<forall>b \<in> set B. fst b + length (snd b) \<le> random_calls s"
    and J2: "\<forall>b \<in> set B. \<forall>b' \<in> set B.
        b \<noteq> b' \<longrightarrow> fst b + length (snd b) \<le> fst b' \<or> fst b' + length (snd b') \<le> fst b"
    and J3: "\<forall>e \<in> set (events s). job_no e < random_calls s"
    and J4: "\<forall>b \<in> set B. \<exists>m \<le> length (snd b). log_of b s = one_by_one (fst b) (length (snd b)) m"
    and J5: "\<forall>t \<in> set (tasks s). \<exists>b \<in> set B. \<exists>m < length (snd b).
        number t = fst b + m \<and>
        awaiting t # remaining t = drop m (newFiles rand (fst b) (snd b)) \<and>
        log_of b s = one_by_one (fst b) (length (snd b)) m"
    and J6: "\<forall>b \<in> set B. \<forall>m < length (snd b).
        log_of b s = one_by_one (fst b) (length (snd b)) m \<longrightarrow>
        (\<exists>t \<in> set (tasks s). number t = fst b + m)"
    and J7: "distinct (map number (tasks s))"
    unfolding sequential_def by blast+
  have tk: "?t \<in> set (tasks s)" using k by simp
  with J5 obtain b m where b: "b \<in> set B" and m: "m < length (snd b)"
    and n: "number ?t = fst b + m"
    and jobs: "awaiting ?t # remaining ?t = drop m (newFiles rand (fst b) (snd b))"
    and pr: "log_of b s = one_by_one (fst b) (length (snd b)) m"
    by blast
  let ?a = "fst b" and ?N = "length (snd b)"
  from jobs have "length (awaiting ?t # remaining ?t) = ?N - m" by simp
  then have len_rem: "length (remaining ?t) = ?N - Suc m" by simp
  then have rem: "remaining ?t = [] \<longleftrightarrow> \<not> Suc m < ?N" using m by auto
  have ev: "events ?s = events s @ UpdateApplied (?a + m) #
      (if Suc m < ?N then [ConvertStart (Suc (?a + m))] else [])"
    using events_settle [OF k, of h] rem n by simp
  have rc: "random_calls ?s = random_calls s" by simp
  have pr': "log_of b ?s = one_by_one ?a ?N (Suc m)"
    using pr m by (simp add: log_of_def ev one_by_one_Suc of_selection_def)
  have other: "log_of b' ?s = log_of b' s" if "b' \<in> set B" and "b' \<noteq> b" for b'
  proof -
    from J2 b that have "?a + ?N \<le> fst b' \<or> fst b' + length (snd b') \<le> ?a" by blast
    then show ?thesis using m by (auto simp add: log_of_def ev of_selection_def)
  qed
  have K1: "\<forall>b \<in> set B. fst b + length (snd b) \<le> random_calls ?s"
    using J1 rc by simp
  have K3: "\<forall>e \<in> set (events ?s). job_no e < random_calls ?s"
  proof -
    from J1 b have "?a + ?N \<le> random_calls s" by blast
    then show ?thesis using J3 m by (auto simp add: ev rc)
  qed
  have K4: "\<forall>b \<in> set B. \<exists>m \<le> length (snd b). log_of b ?s = one_by_one (fst b) (length (snd b)) m"
  proof
    fix b' assume b': "b' \<in> set B"
    show "\<exists>m \<le> length (snd b'). log_of b' ?s = one_by_one (fst b') (length (snd b')) m"
    proof (cases "b' = b")
      case True
      then show ?thesis using pr' m by (intro exI [of _ "Suc m"]) simp
    next
      case False
      then show ?thesis using J4 b' other by simp
    qed
  qed
  have dts: "distinct (tasks s)" using J7 by (rule distinct_map [THEN iffD1, THEN conjunct1])
  have others: "\<exists>b' \<in> set B. b' \<noteq> b \<and> (\<exists>m' < length (snd b').
        number t = fst b' + m' \<and>
        awaiting t # remaining t = drop m' (newFiles rand (fst b') (snd b')) \<and>
        log_of b' s = one_by_one (fst b') (length (snd b')) m')"
    if "t \<in> set (tasks s)" and "t \<noteq> ?t" for t
  proof -
    from J5 that(1) obtain b' m' where b': "b' \<in> set B" and m': "m' < length (snd b')"
      and n': "number t = fst b' + m'"
      and jobs': "awaiting t # remaining t = drop m' (newFiles rand (fst b') (snd b'))"
      and pr2: "log_of b' s = one_by_one (fst b') (length (snd b')) m'"
      by blast
    have "b' \<noteq> b"
    proof
      assume eq: "b' = b"
      with pr pr2 have "one_by_one ?a ?N m' = one_by_one ?a ?N m" by simp
      then have "m' = m" by (rule one_by_one_inj)
      with eq n n' have "number t = number ?t" by simp
      with other_number [OF J7 k that] show False by simp
    qed
    with b' m' n' jobs' pr2 show ?thesis by blast
  qed
  have keep: "log_of b' ?s = one_by_one (fst b') (length (snd b')) m'"
    if "b' \<in> set B" and "b' \<noteq> b" and "log_of b' s = one_by_one (fst b') (length (snd b')) m'"
    for b' m'
    using that other by simp
  define t' where "t' = ?t\<lparr>awaiting := hd (remaining ?t), remaining := tl (remaining ?t),
    number := Suc (number ?t)\<rparr>"
  have ts': "set (tasks ?s) =
      (if Suc m < ?N then insert t' (set (tasks s) - {?t}) else set (tasks s) - {?t})"
  proof (cases "remaining ?t")
    case Nil
    then have "tasks ?s = take k (tasks s) @ drop (Suc k) (tasks s)"
      using tasks_settle [OF k, of h] by simp
    then show ?thesis using Nil rem set_remove_nth [OF dts k] by simp
  next
    case (Cons j r)
    then have "tasks ?s = (tasks s)[k := t']"
      using tasks_settle [OF k, of h] by (simp add: t'_def)
    then show ?thesis using Cons rem set_update_distinct [OF dts k] by simp
  qed
  have t'_ok: "number t' = ?a + Suc m \<and>
      awaiting t' # remaining t' = drop (Suc m) (newFiles rand ?a (snd b))"
    if "Suc m < ?N"
  proof -
    from that rem have ne: "remaining ?t \<noteq> []" by simp
    have "drop (Suc m) (newFiles rand ?a (snd b)) = tl (drop m (newFiles rand ?a (snd b)))"
      by (simp add: drop_Suc tl_drop)
    also have "\<dots> = remaining ?t" using jobs [symmetric] by simp
    finally show ?thesis using ne n by (simp add: t'_def)
  qed
  have K5: "\<forall>t \<in> set (tasks ?s). \<exists>b \<in> set B. \<exists>m < length (snd b).
        number t = fst b + m \<and>
        awaiting t # remaining t = drop m (newFiles rand (fst b) (snd b)) \<and>
        log_of b ?s = one_by_one (fst b) (length (snd b)) m"
  proof
    fix t assume t: "t \<in> set (tasks ?s)"
    show "\<exists>b \<in> set B. \<exists>m < length (snd b).
        number t = fst b + m \<and>
        awaiting t # remaining t = drop m (newFiles rand (fst b) (snd b)) \<and>
        log_of b ?s = one_by_one (fst b) (length (snd b)) m"
    proof (cases "Suc m < ?N \<and> t = t'")
      case True
      with t'_ok pr' b show ?thesis by blast
    next
      case False
      with t ts' have "t \<in> set (tasks s)" and "t \<noteq> ?t" by (auto split: if_splits)
      from others [OF this] keep show ?thesis by blast
    qed
  qed
  have K6: "\<forall>b \<in> set B. \<forall>m < length (snd b).
        log_of b ?s = one_by_one (fst b) (length (snd b)) m \<longrightarrow>
        (\<exists>t \<in> set (tasks ?s). number t = fst b + m)"
  proof (intro ballI allI impI)
    fix b' m'
    assume b': "b' \<in> set B" and m': "m' < length (snd b')"
      and l: "log_of b' ?s = one_by_one (fst b') (length (snd b')) m'"
    show "\<exists>t \<in> set (tasks ?s). number t = fst b' + m'"
    proof (cases "b' = b")
      case True
      with l pr' have "one_by_one ?a ?N m' = one_by_one ?a ?N (Suc m)" by simp
      then have eq: "m' = Suc m" by (rule one_by_one_inj)
      with m' True have "Suc m < ?N" by simp
      with ts' t'_ok eq True show ?thesis by auto
    next
      case False
      with l other b' have "log_of b' s = one_by_one (fst b') (length (snd b')) m'" by simp
      with J6 b' m' obtain t where t: "t \<in> set (tasks s)" and nt: "number t = fst b' + m'"
        by blast
      from J2 b b' False have "?a + ?N \<le> fst b' \<or> fst b' + length (snd b') \<le> ?a" by blast
      with nt n m m' have ne: "number t \<noteq> number ?t" by auto
      then have "t \<noteq> ?t" by auto
      with t ts' nt show ?thesis by auto
    qed
  qed
  have K7: "distinct (map number (tasks ?s))"
  proof (cases "remaining ?t")
    case Nil
    then have "tasks ?s = take k (tasks s) @ drop (Suc k) (tasks s)"
      using tasks_settle [OF k, of h] by simp
    then have "map number (tasks ?s) =
        take k (map number (tasks s)) @ drop (Suc k) (map number (tasks s))"
      by (simp add: take_map drop_map)
    then show ?thesis using distinct_remove_nth [OF J7, of k] by simp
  next
    case (Cons j r)
    then have sm: "Suc m < ?N" using rem by simp
    from Cons have "tasks ?s = (tasks s)[k := t']"
      using tasks_settle [OF k, of h] by (simp add: t'_def)
    then have eq: "map number (tasks ?s) = (map number (tasks s))[k := Suc (number ?t)]"
      by (simp add: map_update t'_def)
    have "Suc (number ?t) \<notin> set (map number (tasks s))"
    proof
      assume "Suc (number ?t) \<in> set (map number (tasks s))"
      then obtain t where t: "t \<in> set (tasks s)" and nt: "number t = Suc (number ?t)" by auto
      then have "t \<noteq> ?t" by auto
      from others [OF t this] obtain b' m' where b': "b' \<in> set B" and ne: "b' \<noteq> b"
        and m': "m' < length (snd b')" and n': "number t = fst b' + m'" by blast
      from J2 b b' ne have "?a + ?N \<le> fst b' \<or> fst b' + length (snd b') \<le> ?a" by blast
      with n n' nt m' sm show False by auto
    qed
    then show ?thesis unfolding eq using J7 by (intro distinct_list_update) auto
  qed
  show ?thesis
    unfolding sequential_def using K1 J2 K3 K4 K5 K6 K7 by blast
qed


lemma sequential_cong:
  assumes "sequential rand B s"
    and "events s' = events s" and "tasks s' = tasks s" and "random_calls s' = random_calls s"
  shows "sequential rand B s'"
  using assms by (simp add: sequential_def log_of_def)

lemma sequential_select:
  assumes inv: "sequential rand B s" and imgs: "imageFiles sel \<noteq> []"
  shows "sequential rand (B @ [(random_calls s, imageFiles sel)]) (handleFilesSelected rand sel s)"
proof -
  let ?s = "handleFilesSelected rand sel s"
  let ?rc = "random_calls s" and ?N = "length (imageFiles sel)"
  let ?new = "(?rc, imageFiles sel)"
  let ?B = "B @ [?new]"
  let ?jobs = "newFiles rand ?rc (imageFiles sel)"
  from inv have J1: "\<forall>b \<in> set B. fst b + length (snd b) \<le> random_calls s"
    and J2: "\<forall>b \<in> set B. \<forall>b' \<in> set B.
        b \<noteq> b' \<longrightarrow> fst b + length (snd b) \<le> fst b' \<or> fst b' + length (snd b') \<le> fst b"
    and J3: "\<forall>e \<in> set (events s). job_no e < random_calls s"
    and J4: "\<forall>b \<in> set B. \<exists>m \<le> length (snd b). log_of b s = one_by_one (fst b) (length (snd b)) m"
    and J5: "\<forall>t \<in> set (tasks s). \<exists>b \<in> set B. \<exists>m < length (snd b).
        number t = fst b + m \<and>
        awaiting t # remaining t = drop m (newFiles rand (fst b) (snd b)) \<and>
        log_of b s = one_by_one (fst b) (length (snd b)) m"
    and J6: "\<forall>b \<in> set B. \<forall>m < length (snd b).
        log_of b s = one_by_one (fst b) (length (snd b)) m \<longrightarrow>
        (\<exists>t \<in> set (tasks s). number t = fst b + m)"
    and J7: "distinct (map number (tasks s))"
    unfolding sequential_def by blast+
  from imgs have N: "0 < ?N" by simp
  define t' where "t' = \<lparr>awaiting = hd ?jobs, remaining = tl ?jobs, task_quality = quality s,
    number = ?rc\<rparr>"
  have ev: "events ?s = events s @ [ConvertStart ?rc]"
    by (rule events_handleFilesSelected [OF imgs])
  have ts: "tasks ?s = tasks s @ [t']"
    by (simp add: tasks_handleFilesSelected [OF imgs] t'_def)
  have rc: "random_calls ?s = ?rc + ?N" by (rule random_calls_handleFilesSelected)
  from imgs have "?jobs \<noteq> []" by (metis length_newFiles length_0_conv)
  then have t'_jobs: "awaiting t' # remaining t' = drop 0 ?jobs" by (simp add: t'_def)
  have t'_no: "number t' = ?rc + 0" by (simp add: t'_def)
  have old: "log_of b ?s = log_of b s" if "b \<in> set B" for b
    using J1 that by (auto simp add: log_of_def ev of_selection_def)
  have "filter (of_selection ?rc ?N) (events s) = []"
    using J3 by (auto simp add: filter_empty_conv of_selection_def)
  then have new: "log_of ?new ?s = one_by_one ?rc ?N 0"
    using N by (simp add: log_of_def ev of_selection_def one_by_one_0)
  have fresh: "?new \<notin> set B"
  proof
    assume "?new \<in> set B"
    with J1 have "?rc + ?N \<le> ?rc" by fastforce
    with N show False by simp
  qed
  have K1: "\<forall>b \<in> set ?B. fst b + length (snd b) \<le> random_calls ?s"
    using J1 by (auto simp add: rc)
  have K2: "\<forall>b \<in> set ?B. \<forall>b' \<in> set ?B.
        b \<noteq> b' \<longrightarrow> fst b + length (snd b) \<le> fst b' \<or> fst b' + length (snd b') \<le> fst b"
    using J1 J2 by auto
  have K3: "\<forall>e \<in> set (events ?s). job_no e < random_calls ?s"
    using J3 N by (auto simp add: ev rc)
  have K4: "\<forall>b \<in> set ?B. \<exists>m \<le> length (snd b).
      log_of b ?s = one_by_one (fst b) (length (snd b)) m"
  proof
    fix b assume "b \<in> set ?B"
    then consider "b \<in> set B" | "b = ?new" by auto
    then show "\<exists>m \<le> length (snd b). log_of b ?s = one_by_one (fst b) (length (snd b)) m"
    proof cases
      case 1
      with J4 old show ?thesis by simp
    next
      case 2
      with new show ?thesis by (intro exI [of _ 0]) simp
    qed
  qed
  have K5: "\<forall>t \<in> set (tasks ?s). \<exists>b \<in> set ?B. \<exists>m < length (snd b).
        number t = fst b + m \<and>
        awaiting t # remaining t = drop m (newFiles rand (fst b) (snd b)) \<and>
        log_of b ?s = one_by_one (fst b) (length (snd b)) m"
  proof
    fix t assume "t \<in> set (tasks ?s)"
    then consider "t \<in> set (tasks s)" | "t = t'" by (auto simp add: ts)
    then show "\<exists>b \<in> set ?B. \<exists>m < length (snd b).
        number t = fst b + m \<and>
        awaiting t # remaining t = drop m (newFiles rand (fst b) (snd b)) \<and>
        log_of b ?s = one_by_one (fst b) (length (snd b)) m"
    proof cases
      case 1
      with J5 obtain b m where "b \<in> set B" "m < length (snd b)" "number t = fst b + m"
        "awaiting t # remaining t = drop m (newFiles rand (fst b) (snd b))"
        "log_of b s = one_by_one (fst b) (length (snd b)) m" by blast
      with old show ?thesis by (intro bexI [of _ b] exI [of _ m]) simp_all
    next
      case 2
      with t'_jobs t'_no new N show ?thesis
        by (intro bexI [of _ ?new] exI [of _ 0]) simp_all
    qed
  qed
  have K6: "\<forall>b \<in> set ?B. \<forall>m < length (snd b).
        log_of b ?s = one_by_one (fst b) (length (snd b)) m \<longrightarrow>
        (\<exists>t \<in> set (tasks ?s). number t = fst b + m)"
  proof (intro ballI allI impI)
    fix b m
    assume b: "b \<in> set ?B" and m: "m < length (snd b)"
      and l: "log_of b ?s = one_by_one (fst b) (length (snd b)) m"
    from b consider "b \<in> set B" | "b = ?new" by auto
    then show "\<exists>t \<in> set (tasks ?s). number t = fst b + m"
    proof cases
      case 1
      with l old have "log_of b s = one_by_one (fst b) (length (snd b)) m" by simp
      with J6 1 m obtain t where "t \<in> set (tasks s)" "number t = fst b + m" by blast
      then show ?thesis by (auto simp add: ts)
    next
      case 2
      with l new have "one_by_one ?rc ?N m = one_by_one ?rc ?N 0" by simp
      then have "m = 0" by (rule one_by_one_inj)
      with 2 t'_no show ?thesis by (auto simp add: ts)
    qed
  qed
  have K7: "distinct (map number (tasks ?s))"
  proof -
    have "?rc \<notin> number ` set (tasks s)"
    proof
      assume "?rc \<in> number ` set (tasks s)"
      then obtain t where t: "t \<in> set (tasks s)" and nt: "number t = ?rc" by auto
      with J5 obtain b m where "b \<in> set B" "m < length (snd b)" "number t = fst b + m"
        by blast
      with J1 nt show False by fastforce
    qed
    then show ?thesis using J7 by (simp add: ts t'_def)
  qed
  show ?thesis
    unfolding sequential_def using K1 K2 K3 K4 K5 K6 K7 by blast
qed

lemma sequential_initial: "sequential rand [] initial"
  by (simp add: sequential_def initial_def)

lemma sequential_step:
  assumes "sequential rand B s"
  shows "sequential rand (B @ selections rand [a] s) (step rand a s)"
proof (cases a)
  case (FilesSelected sel)
  show ?thesis
  proof (cases "imageFiles sel = []")
    case True
    with FilesSelected assms show ?thesis by (simp add: handleFilesSelected_no_images)
  next
    case False
    with FilesSelected sequential_select [OF assms False] show ?thesis by simp
  qed
next
  case (Settled k h)
  show ?thesis
  proof (cases "k < length (tasks s)")
    case True
    with Settled sequential_settle [OF assms True] show ?thesis by simp
  next
    case False
    with Settled assms show ?thesis by (simp add: settle_no_task)
  qed
next
  case (RemoveFile i)
  with assms show ?thesis
    by (auto intro!: sequential_cong [OF assms] simp add: removeFile_def Let_def)
next
  case CleanAll
  with assms show ?thesis
    by (auto intro!: sequential_cong [OF assms] simp add: clean_all_def)
next
  case (QualityChange v)
  with assms show ?thesis
    by (auto intro!: sequential_cong [OF assms] simp add: setQuality_def)
qed

lemma selections_Cons:
  "selections rand (a # acts) s = selections rand [a] s @ selections rand acts (step rand a s)"
  by simp

lemma sequential_run:
  "sequential rand B s \<Longrightarrow> sequential rand (B @ selections rand acts s) (run rand acts s)"
proof (induction acts arbitrary: B s)
  case Nil
  then show ?case by simp
next
  case (Cons a acts)
  from sequential_step [OF Cons.prems]
  have "sequential rand (B @ selections rand [a] s) (step rand a s)" .
  from Cons.IH [OF this] show ?case
    by (simp only: selections_Cons [of rand a acts s] run.simps append_assoc)
qed

lemma sequential_session: "sequential rand (selections rand acts initial) (run rand acts initial)"
  using sequential_run [OF sequential_initial, of rand acts] by simp

lemma one_in_flight_step:
  assumes "started s = applied s + length (tasks s)"
  shows "started (step rand a s) = applied (step rand a s) + length (tasks (step rand a s))"
proof (cases a)
  case (FilesSelected sel)
  show ?thesis
  proof (cases "imageFiles sel = []")
    case True
    with FilesSelected assms show ?thesis by (simp add: handleFilesSelected_no_images)
  next
    case False
    with FilesSelected assms show ?thesis
      by (simp add: started_def applied_def events_handleFilesSelected
          tasks_handleFilesSelected)
  qed
next
  case (Settled k h)
  show ?thesis
  proof (cases "k < length (tasks s)")
    case False
    with Settled assms show ?thesis by (simp add: settle_def)
  next
    case True
    with Settled assms show ?thesis
      by (cases "remaining (tasks s ! k)")
        (auto simp add: started_def applied_def events_settle tasks_settle min_def)
  qed
next
  case (RemoveFile i)
  with assms show ?thesis by (simp add: started_def applied_def removeFile_def Let_def)
next
  case CleanAll
  with assms show ?thesis by (simp add: started_def applied_def clean_all_def)
next
  case (QualityChange v)
  with assms show ?thesis by (simp add: started_def applied_def setQuality_def)
qed

lemma one_in_flight_run:
  "started s = applied s + length (tasks s) \<Longrightarrow>
   started (run rand acts s) = applied (run rand acts s) + length (tasks (run rand acts s))"
  by (induction acts arbitrary: s) (simp_all add: one_in_flight_step)

lemma one_in_flight: "started (run rand acts initial) =
    applied (run rand acts initial) + length (tasks (run rand acts initial))"
  by (rule one_in_flight_run) (simp add: started_def applied_def initial_def)


lemma created_nothing:
  "imageFiles sel = [] \<Longrightarrow> created rand (FilesSelected sel) s = []"
  by (simp add: created_FilesSelected)

lemma numbered_in_order_of_creation:
  "\<forall>b \<in> set (selections rand acts s).
     random_calls s \<le> fst b \<and>
     take (length (snd b)) (drop (fst b - random_calls s) (all_created rand acts s)) =
       newFiles rand (fst b) (snd b)"
proof (induction acts arbitrary: s)
  case Nil
  show ?case by simp
next
  case (Cons a acts)
  let ?s = "step rand a s"
  note IH = Cons.IH [of ?s]
  show ?case
  proof (cases a)
    case (FilesSelected sel)
    let ?new = "newFiles rand (random_calls s) (imageFiles sel)"
    have rc: "random_calls ?s = random_calls s + length (imageFiles sel)"
      using FilesSelected by (simp add: random_calls_handleFilesSelected)
    have all: "all_created rand (a # acts) s = ?new @ all_created rand acts ?s"
      using FilesSelected by (simp add: created_FilesSelected)
    have rest: "random_calls s \<le> fst b \<and>
        take (length (snd b)) (drop (fst b - random_calls s) (all_created rand (a # acts) s)) =
          newFiles rand (fst b) (snd b)"
      if "b \<in> set (selections rand acts ?s)" for b
    proof -
      from IH that have le: "random_calls ?s \<le> fst b"
        and eq: "take (length (snd b)) (drop (fst b - random_calls ?s) (all_created rand acts ?s)) =
          newFiles rand (fst b) (snd b)" by blast+
      from le rc have "fst b - random_calls s - length ?new = fst b - random_calls ?s"
        and "length ?new \<le> fst b - random_calls s" by simp_all
      then have "drop (fst b - random_calls s) (?new @ all_created rand acts ?s) =
          drop (fst b - random_calls ?s) (all_created rand acts ?s)" by simp
      then have "drop (fst b - random_calls s) (all_created rand (a # acts) s) =
          drop (fst b - random_calls ?s) (all_created rand acts ?s)" by (simp only: all)
      with eq have "take (length (snd b))
          (drop (fst b - random_calls s) (all_created rand (a # acts) s)) =
          newFiles rand (fst b) (snd b)" by (simp only:)
      moreover from le rc have "random_calls s \<le> fst b" by simp
      ultimately show ?thesis by (rule conjI [rotated])
    qed
    have sels: "selections rand (a # acts) s =
        (if imageFiles sel = [] then [] else [(random_calls s, imageFiles sel)]) @
        selections rand acts ?s"
      using FilesSelected by simp
    have first: "take (length (imageFiles sel))
        (drop (random_calls s - random_calls s) (all_created rand (a # acts) s)) = ?new"
      by (simp only: all) simp
    show ?thesis
      unfolding sels using rest first by (auto simp del: all_created.simps)
  next
    case (Settled k h)
    then show ?thesis using IH by simp
  next
    case (RemoveFile i)
    then show ?thesis using IH by (simp add: removeFile_def Let_def)
  next
    case CleanAll
    then show ?thesis using IH by (simp add: clean_all_def)
  next
    case (QualityChange v)
    then show ?thesis using IH by (simp add: setQuality_def)
  qed
qed

text \<open>
  C1, as the code has it. A selection with image files appends one job for each of
  them to the registry at once, all in state \<open>Converting\<close>, and starts the conversion
  of the first one only. The \<^verbatim>\<open>for\<close> loop awaits each conversion, so in every
  session, however the selections, the settled conversions, the removals and the
  other actions are interleaved:

  \<^item> the jobs of a selection are the next jobs in the order of creation, one for
    each image file in the order of the selection;
  \<^item> the entries of the log about one selection are the start and the update of
    its first job, then of its second job, and so on, up to some job, and then the
    start of the next job if one is left: a job is started only after the update
    of the job before it, and the outcomes of one selection are applied in the
    order of the selection;
  \<^item> a selection with a job left has a suspended call, and every suspended call
    awaits the one job of its selection that is started and not updated, and holds
    the jobs after it in the order of the selection; the suspended calls await
    different jobs, and the conversions started and not yet applied are as many
    as the suspended calls;
  \<^item> the step that logs the update of a job is the step that starts the next job
    of the same call, and after it no job in the registry with the updated job's
    id is in state \<open>Converting\<close>.
\<close>

theorem selections_are_converted_one_by_one:
  "(\<forall>(a, imgs) \<in> set (selections rand acts initial).
      take (length imgs) (drop a (all_created rand acts initial)) = newFiles rand a imgs \<and>
      map originalFile (newFiles rand a imgs) = imgs \<and>
      (\<exists>m \<le> length imgs.
         filter (of_selection a (length imgs)) (events (run rand acts initial)) =
           one_by_one a (length imgs) m \<and>
         (m < length imgs \<longrightarrow> (\<exists>t \<in> set (tasks (run rand acts initial)). number t = a + m)))) \<and>
   (\<forall>t \<in> set (tasks (run rand acts initial)).
      \<exists>(a, imgs) \<in> set (selections rand acts initial). \<exists>m < length imgs.
        number t = a + m \<and>
        awaiting t # remaining t = drop m (newFiles rand a imgs) \<and>
        filter (of_selection a (length imgs)) (events (run rand acts initial)) =
          one_by_one a (length imgs) m) \<and>
   distinct (map number (tasks (run rand acts initial))) \<and>
   started (run rand acts initial) =
     applied (run rand acts initial) + length (tasks (run rand acts initial)) \<and>
   (imageFiles sel \<noteq> [] \<longrightarrow>
      files (handleFilesSelected rand sel s) =
        files s @ newFiles rand (random_calls s) (imageFiles sel) \<and>
      (\<forall>j \<in> set (newFiles rand (random_calls s) (imageFiles sel)). status j = Converting) \<and>
      events (handleFilesSelected rand sel s) = events s @ [ConvertStart (random_calls s)]) \<and>
   (k < length (tasks s) \<longrightarrow>
      events (settle k h s) =
        events s @ UpdateApplied (number (tasks s ! k)) #
          (if remaining (tasks s ! k) = [] then []
           else [ConvertStart (Suc (number (tasks s ! k)))]) \<and>
      (\<forall>f \<in> set (files (settle k h s)).
         id_of f = id_of (awaiting (tasks s ! k)) \<longrightarrow> status f \<noteq> Converting))"
proof -
  let ?B = "selections rand acts initial" and ?s = "run rand acts initial"
  from sequential_session [of rand acts]
  have J4: "\<forall>b \<in> set ?B. \<exists>m \<le> length (snd b).
        log_of b ?s = one_by_one (fst b) (length (snd b)) m"
    and J5: "\<forall>t \<in> set (tasks ?s). \<exists>b \<in> set ?B. \<exists>m < length (snd b).
        number t = fst b + m \<and>
        awaiting t # remaining t = drop m (newFiles rand (fst b) (snd b)) \<and>
        log_of b ?s = one_by_one (fst b) (length (snd b)) m"
    and J6: "\<forall>b \<in> set ?B. \<forall>m < length (snd b).
        log_of b ?s = one_by_one (fst b) (length (snd b)) m \<longrightarrow>
        (\<exists>t \<in> set (tasks ?s). number t = fst b + m)"
    and J7: "distinct (map number (tasks ?s))"
    unfolding sequential_def by blast+
  have A: "\<forall>(a, imgs) \<in> set ?B.
      take (length imgs) (drop a (all_created rand acts initial)) = newFiles rand a imgs \<and>
      map originalFile (newFiles rand a imgs) = imgs \<and>
      (\<exists>m \<le> length imgs.
         filter (of_selection a (length imgs)) (events ?s) = one_by_one a (length imgs) m \<and>
         (m < length imgs \<longrightarrow> (\<exists>t \<in> set (tasks ?s). number t = a + m)))"
  proof (intro ballI, clarify)
    fix a imgs assume b: "(a, imgs) \<in> set ?B"
    from numbered_in_order_of_creation [of rand acts initial] b
    have "take (length imgs) (drop a (all_created rand acts initial)) = newFiles rand a imgs"
      by (fastforce simp add: initial_def)
    moreover from J4 b obtain m where "m \<le> length imgs"
      and "filter (of_selection a (length imgs)) (events ?s) = one_by_one a (length imgs) m"
      by (fastforce simp add: log_of_def)
    moreover from this J6 b
    have "m < length imgs \<longrightarrow> (\<exists>t \<in> set (tasks ?s). number t = a + m)"
      by (fastforce simp add: log_of_def)
    ultimately show "take (length imgs) (drop a (all_created rand acts initial)) =
        newFiles rand a imgs \<and>
      map originalFile (newFiles rand a imgs) = imgs \<and>
      (\<exists>m \<le> length imgs.
         filter (of_selection a (length imgs)) (events ?s) = one_by_one a (length imgs) m \<and>
         (m < length imgs \<longrightarrow> (\<exists>t \<in> set (tasks ?s). number t = a + m)))"
      using map_originalFile_newFiles by blast
  qed
  have B: "\<forall>t \<in> set (tasks ?s).
      \<exists>(a, imgs) \<in> set ?B. \<exists>m < length imgs.
        number t = a + m \<and>
        awaiting t # remaining t = drop m (newFiles rand a imgs) \<and>
        filter (of_selection a (length imgs)) (events ?s) = one_by_one a (length imgs) m"
  proof
    fix t assume "t \<in> set (tasks ?s)"
    with J5 obtain b m where "b \<in> set ?B" "m < length (snd b)" "number t = fst b + m"
      "awaiting t # remaining t = drop m (newFiles rand (fst b) (snd b))"
      "log_of b ?s = one_by_one (fst b) (length (snd b)) m" by blast
    then show "\<exists>(a, imgs) \<in> set ?B. \<exists>m < length imgs.
        number t = a + m \<and>
        awaiting t # remaining t = drop m (newFiles rand a imgs) \<and>
        filter (of_selection a (length imgs)) (events ?s) = one_by_one a (length imgs) m"
      by (intro bexI [of _ b]) (auto simp add: log_of_def case_prod_beta)
  qed
  have C: "imageFiles sel \<noteq> [] \<longrightarrow>
      files (handleFilesSelected rand sel s) =
        files s @ newFiles rand (random_calls s) (imageFiles sel) \<and>
      (\<forall>j \<in> set (newFiles rand (random_calls s) (imageFiles sel)). status j = Converting) \<and>
      events (handleFilesSelected rand sel s) = events s @ [ConvertStart (random_calls s)]"
    using files_handleFilesSelected events_handleFilesSelected newFiles_fresh by blast
  have D: "k < length (tasks s) \<longrightarrow>
      events (settle k h s) =
        events s @ UpdateApplied (number (tasks s ! k)) #
          (if remaining (tasks s ! k) = [] then []
           else [ConvertStart (Suc (number (tasks s ! k)))]) \<and>
      (\<forall>f \<in> set (files (settle k h s)).
         id_of f = id_of (awaiting (tasks s ! k)) \<longrightarrow> status f \<noteq> Converting)"
    using events_settle status_settle by blast
  from A B J7 one_in_flight [of rand acts] C D show ?thesis by blast
qed


theorem selections_are_converted_one_by_one_witness:
  "selections counting two_selections initial = [(0, [photo, icon]), (2, [icon])] \<and>
   events (run counting two_selections initial) =
     [ConvertStart 0, ConvertStart 2, UpdateApplied 2, UpdateApplied 0, ConvertStart 1] \<and>
   (\<exists>m \<le> length [photo, icon].
      filter (of_selection 0 (length [photo, icon]))
        (events (run counting two_selections initial)) =
      one_by_one 0 (length [photo, icon]) m) \<and>
   (\<exists>m \<le> length [icon].
      filter (of_selection 2 (length [icon]))
        (events (run counting two_selections initial)) =
      one_by_one 2 (length [icon]) m) \<and>
   map number (tasks (run counting two_selections initial)) = [1] \<and>
   imageFiles [photo, memo, icon] \<noteq> [] \<and>
   files (handleFilesSelected counting [photo, memo, icon] two_images) =
     files two_images @ newFiles counting (random_calls two_images) [photo, icon] \<and>
   0 < length (tasks two_images) \<and>
   events (settle 0 encoder_ok two_images) =
     [ConvertStart 0, UpdateApplied 0, ConvertStart 1] \<and>
   id_of (files (settle 0 encoder_ok two_images) ! 0) = id_of (awaiting (tasks two_images ! 0)) \<and>
   status (files (settle 0 encoder_ok two_images) ! 0) \<noteq> Converting"
proof -
  let ?E = "events (run counting two_selections initial)"
  have images: "imageFiles [photo, memo, icon] = [photo, icon]"
    by (simp add: imageFiles_def startsWith_def photo_def memo_def icon_def)
  then have ne: "imageFiles [photo, memo, icon] \<noteq> []" by simp
  have sels: "selections counting two_selections initial = [(0, [photo, icon]), (2, [icon])]"
    by (simp add: two_selections_def app_eval)
  have log: "?E = [ConvertStart 0, ConvertStart 2, UpdateApplied 2, UpdateApplied 0, ConvertStart 1]"
    by (simp add: two_selections_def app_eval)
  have nos: "map number (tasks (run counting two_selections initial)) = [1]"
    by (simp add: two_selections_def app_eval)
  have k: "0 < length (tasks two_images)"
    and two: "events two_images = [ConvertStart 0]" "number (tasks two_images ! 0) = 0"
      "remaining (tasks two_images ! 0) \<noteq> []"
    by (simp_all add: two_images_def app_eval)
  note T = selections_are_converted_one_by_one
    [of counting two_selections "[photo, memo, icon]" two_images 0 encoder_ok]
  note A = T [THEN conjunct1]
  note C = T [THEN conjunct2, THEN conjunct2, THEN conjunct2, THEN conjunct2, THEN conjunct1]
  note D = T [THEN conjunct2, THEN conjunct2, THEN conjunct2, THEN conjunct2, THEN conjunct2]
  have "(0, [photo, icon]) \<in> set (selections counting two_selections initial)"
    by (simp add: sels)
  from bspec [OF A this]
  have first: "\<exists>m \<le> length [photo, icon].
      filter (of_selection 0 (length [photo, icon])) ?E = one_by_one 0 (length [photo, icon]) m"
    by (simp only: split_conv) blast
  have "(2, [icon]) \<in> set (selections counting two_selections initial)"
    by (simp add: sels)
  from bspec [OF A this]
  have second: "\<exists>m \<le> length [icon].
      filter (of_selection 2 (length [icon])) ?E = one_by_one 2 (length [icon]) m"
    by (simp only: split_conv) blast
  from C [rule_format, OF ne]
  have sub: "files (handleFilesSelected counting [photo, memo, icon] two_images) =
     files two_images @ newFiles counting (random_calls two_images) [photo, icon]"
    by (simp add: images)
  from D [rule_format, OF k] two
  have set: "events (settle 0 encoder_ok two_images) =
     [ConvertStart 0, UpdateApplied 0, ConvertStart 1]"
    and app: "\<forall>f \<in> set (files (settle 0 encoder_ok two_images)).
      id_of f = id_of (awaiting (tasks two_images ! 0)) \<longrightarrow> status f \<noteq> Converting"
    by simp_all
  have job: "files (settle 0 encoder_ok two_images) ! 0 \<in> set (files (settle 0 encoder_ok two_images))"
    and same: "id_of (files (settle 0 encoder_ok two_images) ! 0) =
      id_of (awaiting (tasks two_images ! 0))"
    by (simp_all add: two_images_def app_eval counting_def)
  from app job same
  have fin: "status (files (settle 0 encoder_ok two_images) ! 0) \<noteq> Converting" by blast
  from sels log first second nos ne sub k set same fin show ?thesis by blast
qed

text \<open>Two images are selected: both jobs are in the registry, the second
  conversion is not started with the first, but by the step that applies the
  first one's outcome.\<close>

theorem second_job_waits_counterexample:
  "map status (files (handleFilesSelected counting [photo, icon] initial)) =
     [Converting, Converting] \<and>
   events (handleFilesSelected counting [photo, icon] initial) = [ConvertStart 0] \<and>
   events (settle 0 encoder_ok (handleFilesSelected counting [photo, icon] initial)) =
     [ConvertStart 0, UpdateApplied 0, ConvertStart 1]"
  by (simp add: app_eval)


subsection \<open>Release of output handles\<close>

lemma revoked_removeFile:
  "revoked (removeFile i s) =
     revoked s @
     (case find (\<lambda>f. id_of f = i) (files s) of
        None \<Rightarrow> [] | Some f \<Rightarrow> truthy_url (convertedUrl f)) @
     revoke_each (files s)"
  by (simp add: removeFile_def setFiles_def Let_def)

lemma revoked_settle:
  "k < length (tasks s) \<Longrightarrow> revoked (settle k h s) = revoked s @ revoke_each (files s)"
  by (simp add: settle_def setFiles_def Let_def split: sum.splits list.splits prod.splits)

text \<open>
  C2 fails when a converted job is removed: \<^verbatim>\<open>removeFile\<close> revokes the job's URL,
  its \<^verbatim>\<open>setFiles\<close> changes \<open>files\<close>, and the cleanup of the effect on \<open>files\<close>
  revokes the URL of every job of the previous render, the removed one included.
  One file is selected, converted to \<open>blob:1\<close> and removed; \<open>blob:1\<close> is revoked twice.
\<close>

theorem removeFile_revokes_twice:
  "revoked (removeFile ''4fzyo82mv''
     (settle 0 encoder_ok (handleFilesSelected draws [photo] initial))) =
   [''blob:1'', ''blob:1'']"
  by (simp add: app_eval)

end
